theory Spec2Isabelle
  imports Main "HOL-Library.Word" "HOL-Library.Monad_Syntax"
begin

unbundle bit_operations_syntax

section \<open>The scr screen library (screen.cpp, scr.hpp), curses build\<close>

text \<open>
  The model follows the POSIX (curses) configuration of \<^verbatim>\<open>screen.cpp\<close>: it is the one
  that keeps a physical image beside the virtual one and whose \<^verbatim>\<open>convert_attribute\<close>
  knows a monochrome mode.

  A C++ \<^verbatim>\<open>int\<close> has 32 bits. Where the code computes with arguments as the caller gave
  them (the sums of \<^verbatim>\<open>adjust_dimensions\<close>) or with a width or height that the clamp may
  have left unclamped (\<^verbatim>\<open>scroll\<close>), the arithmetic wraps around as the compiled code
  does (\<open>int_add\<close>, \<open>int_sub\<close>, \<open>int_mul\<close>). The offset of a clamped row and column is
  an integer of HOL: the geometry of a session is bounded so that it fits an \<^verbatim>\<open>int\<close>.
  Where the code converts to another integer type (\<^verbatim>\<open>unsigned\<close>, \<^verbatim>\<open>char\<close>, \<^verbatim>\<open>size_t\<close> to
  \<^verbatim>\<open>int\<close>) the conversion is written out. A \<^verbatim>\<open>char\<close> is a byte.
\<close>

type_synonym byte = "8 word"

subsection \<open>Colour codes (scr.hpp)\<close>

definition WHITE :: int where "WHITE = 0x07"
definition REV_BLACK :: int where "REV_BLACK = 0x00"
definition REV_WHITE :: int where "REV_WHITE = 0x70"
definition BRIGHT :: int where "BRIGHT = 0x08"
definition BLINK :: int where "BLINK = 0x80"

subsection \<open>Attribute manipulation\<close>

text \<open>
  \<^verbatim>\<open>convert_attribute\<close>: the global \<^verbatim>\<open>color_works\<close> is the first argument. With colour
  the attribute is returned as it is; without, a black background forces a white
  foreground and any other background forces reverse video.
\<close>

definition convert_attribute :: "bool \<Rightarrow> int \<Rightarrow> int" where
  "convert_attribute color_works attribute =
     (if color_works then attribute
      else if attribute AND 0x70 = REV_BLACK then attribute OR WHITE
      else (attribute OR REV_WHITE) AND 0xF8)"

definition reverse_attribute :: "int \<Rightarrow> int" where
  "reverse_attribute attribute =
     (let first = attribute AND 0x07;
          second = drop_bit 4 (attribute AND 0x70);
          attribute = attribute AND 0xf8;
          attribute = attribute AND 0x8f;
          attribute = attribute OR push_bit 4 first;
          attribute = attribute OR second
      in attribute)"

subsection \<open>Region clamping\<close>

text \<open>
  The arguments of \<^verbatim>\<open>adjust_dimensions\<close> are C++ \<^verbatim>\<open>int\<close>s, 32 bits wide. Its two
  sums \<^verbatim>\<open>r + h - 1\<close> and \<^verbatim>\<open>c + w - 1\<close> can leave that range; the compiled code then
  goes on with the two's complement result, which \<open>int_wrap\<close> computes. \<open>int_add\<close>,
  \<open>int_sub\<close> and \<open>int_mul\<close> are the \<^verbatim>\<open>+\<close>, \<^verbatim>\<open>-\<close> and \<^verbatim>\<open>*\<close> of \<^verbatim>\<open>int\<close>.
\<close>

definition INT_MAX :: int where
  "INT_MAX = 2147483647"

definition int_wrap :: "int \<Rightarrow> int" where
  "int_wrap i = (i + 2147483648) mod 4294967296 - 2147483648"

definition int_add :: "int \<Rightarrow> int \<Rightarrow> int" where
  "int_add a b = int_wrap (a + b)"

definition int_sub :: "int \<Rightarrow> int \<Rightarrow> int" where
  "int_sub a b = int_wrap (a - b)"

definition int_mul :: "int \<Rightarrow> int \<Rightarrow> int" where
  "int_mul a b = int_wrap (a * b)"

text \<open>
  \<^verbatim>\<open>adjust_dimensions(r, c, w, h)\<close> updates its four reference arguments; the model
  returns them. The globals \<^verbatim>\<open>total_rows\<close> and \<^verbatim>\<open>total_columns\<close> come first.
\<close>

definition adjust_dimensions ::
  "int \<Rightarrow> int \<Rightarrow> int \<Rightarrow> int \<Rightarrow> int \<Rightarrow> int \<Rightarrow> int \<times> int \<times> int \<times> int" where
  "adjust_dimensions total_rows total_columns r c w h =
     (let r = (if r < 1 then 1 else r);
          r = (if r > total_rows then total_rows else r);
          c = (if c < 1 then 1 else c);
          c = (if c > total_columns then total_columns else c);
          h = (if h \<le> 0 then 1 else h);
          w = (if w \<le> 0 then 1 else w);
          h = (if int_sub (int_add r h) 1 > total_rows
               then int_add (int_sub total_rows r) 1 else h);
          w = (if int_sub (int_add c w) 1 > total_columns
               then int_add (int_sub total_columns c) 1 else w)
      in (r, c, w, h))"

subsection \<open>Box drawing characters\<close>

record BoxChars =
  horizontal :: int
  vertical :: int
  upper_left :: int
  upper_right :: int
  lower_left :: int
  lower_right :: int
  left_stop :: int
  right_stop :: int
  top_stop :: int
  bottom_stop :: int
  cross :: int

datatype BoxType =
  DOUBLE_LINE | SINGLE_LINE | DARK_GRAPHIC | LIGHT_GRAPHIC | SOLID | ASCII | BLANK_BOX
  | NO_BORDER

text \<open>The value of each enumerator, which the code uses as an array index.\<close>

fun box_ordinal :: "BoxType \<Rightarrow> nat" where
  "box_ordinal DOUBLE_LINE = 0"
| "box_ordinal SINGLE_LINE = 1"
| "box_ordinal DARK_GRAPHIC = 2"
| "box_ordinal LIGHT_GRAPHIC = 3"
| "box_ordinal SOLID = 4"
| "box_ordinal ASCII = 5"
| "box_ordinal BLANK_BOX = 6"
| "box_ordinal NO_BORDER = 7"

definition mk_box :: "int list \<Rightarrow> BoxChars" where
  "mk_box g =
     \<lparr>horizontal = g ! 0, vertical = g ! 1, upper_left = g ! 2, upper_right = g ! 3,
      lower_left = g ! 4, lower_right = g ! 5, left_stop = g ! 6, right_stop = g ! 7,
      top_stop = g ! 8, bottom_stop = g ! 9, cross = g ! 10\<rparr>"

definition box_definitions :: "BoxChars list" where
  "box_definitions =
     [mk_box [205, 186, 201, 187, 200, 188, 181, 198, 208, 210, 206],
      mk_box [196, 179, 218, 191, 192, 217, 180, 195, 193, 194, 197],
      mk_box [177, 177, 177, 177, 177, 177, 177, 177, 177, 177, 177],
      mk_box [176, 176, 176, 176, 176, 176, 176, 176, 176, 176, 176],
      mk_box [219, 219, 219, 219, 219, 219, 219, 219, 219, 219, 219],
      mk_box [45, 124, 43, 43, 43, 43, 43, 43, 43, 43, 43],
      mk_box [32, 32, 32, 32, 32, 32, 32, 32, 32, 32, 32]]"

text \<open>
  \<^verbatim>\<open>&box_definitions[i]\<close>: the element the returned pointer points at, \<open>None\<close> when the
  index is past the last element of the array (there is no \<^verbatim>\<open>BoxChars\<close> object there).
\<close>

definition box_definitions_at :: "nat \<Rightarrow> BoxChars option" where
  "box_definitions_at i =
     (if i < length box_definitions then Some (box_definitions ! i) else None)"

text \<open>
  \<^verbatim>\<open>get_box_characters\<close>; the first argument says whether \<^verbatim>\<open>SCR_ASCIIBOXES\<close> is defined.
\<close>

definition get_box_characters :: "bool \<Rightarrow> BoxType \<Rightarrow> BoxChars option" where
  "get_box_characters scr_asciiboxes the_type =
     (if scr_asciiboxes then
        (if the_type = BLANK_BOX then box_definitions_at (box_ordinal BLANK_BOX)
         else box_definitions_at (box_ordinal ASCII))
      else box_definitions_at (box_ordinal the_type))"

subsection \<open>Memory\<close>

text \<open>
  An array of \<^verbatim>\<open>char\<close> is a list of bytes, and a pointer into it is an integer offset
  from its first element. Every access checks its offsets: \<open>None\<close> is an access outside
  the array, or through a null pointer, which C++ leaves undefined. Pointer arithmetic
  itself is arithmetic on the offsets.
\<close>

definition peek :: "byte list \<Rightarrow> int \<Rightarrow> byte option" where
  "peek mem p = (if 0 \<le> p \<and> p < int (length mem) then Some (mem ! nat p) else None)"

definition poke :: "byte list \<Rightarrow> int \<Rightarrow> byte \<Rightarrow> byte list option" where
  "poke mem p v = (if 0 \<le> p \<and> p < int (length mem) then Some (mem[nat p := v]) else None)"

text \<open>\<^verbatim>\<open>memcpy(dst + d, src + s, n)\<close> between two different arrays.\<close>

definition memcpy :: "byte list \<Rightarrow> int \<Rightarrow> byte list \<Rightarrow> int \<Rightarrow> nat \<Rightarrow> byte list option" where
  "memcpy dst d src s n =
     (if 0 \<le> d \<and> d + int n \<le> int (length dst) \<and> 0 \<le> s \<and> s + int n \<le> int (length src)
      then Some (take (nat d) dst @ take n (drop (nat s) src) @ drop (nat d + n) dst)
      else None)"

text \<open>\<^verbatim>\<open>memcpy\<close> inside one array: the two ranges must not overlap.\<close>

definition memcpy_within :: "byte list \<Rightarrow> int \<Rightarrow> int \<Rightarrow> nat \<Rightarrow> byte list option" where
  "memcpy_within mem d s n =
     (if d + int n \<le> s \<or> s + int n \<le> d then memcpy mem d mem s n else None)"

text \<open>Integer conversions: \<^verbatim>\<open>int\<close> to \<^verbatim>\<open>unsigned\<close>, to \<^verbatim>\<open>size_t\<close> and to \<^verbatim>\<open>char\<close>, and
  \<^verbatim>\<open>static_cast<int>\<close> of a \<^verbatim>\<open>size_t\<close>.\<close>

definition to_unsigned :: "int \<Rightarrow> nat" where
  "to_unsigned i = nat (i mod 2 ^ 32)"

definition to_size_t :: "int \<Rightarrow> nat" where
  "to_size_t i = nat (i mod 2 ^ 64)"

definition to_char :: "int \<Rightarrow> byte" where
  "to_char i = word_of_int i"

definition size_t_to_int :: "nat \<Rightarrow> int" where
  "size_t_to_int n = sint (word_of_nat n :: 32 word)"

subsection \<open>The global data\<close>

text \<open>
  What the library sends to curses and to the keyboard module is kept as a list of
  calls, oldest first. \<open>Addch c a\<close> stands for \<^verbatim>\<open>addch\<close> of the character built from
  the cell with character byte \<open>c\<close> and attribute byte \<open>a\<close>; how curses encodes it
  (\<^verbatim>\<open>ACS_*\<close>, \<^verbatim>\<open>A_BLINK\<close>, \<^verbatim>\<open>A_BOLD\<close>, \<^verbatim>\<open>COLOR_PAIR\<close>) is outside the model. \<open>Initscr\<close>
  stands for \<^verbatim>\<open>initscr\<close> and the mode and colour set-up calls after it.
\<close>

datatype curses_call =
  Initialize_key | Terminate_key | Initscr | Endwin | Werase
  | Move int int | Addch byte byte | Curses_refresh

text \<open>The calls of \<^verbatim>\<open>new[]\<close> and \<^verbatim>\<open>delete[]\<close> on the two images, oldest first.\<close>

datatype heap_call =
  New_screen_image | New_physical_image | Delete_screen_image | Delete_physical_image

record scr =
  total_rows :: int
  total_columns :: int
  max_rows :: int
  max_columns :: int
  initialize_counter :: int
  color_works :: bool
  screen_image :: "byte list option"
  physical_image :: "byte list option"
  virtual_row :: int
  virtual_column :: int
  physical_row :: int
  physical_column :: int
  terminal :: "curses_call list"
  heap_log :: "heap_call list"

definition maximum_print_size :: nat where
  "maximum_print_size = 1024"

text \<open>
  The offset \<^verbatim>\<open>((row - 1) * 2 * total_columns) + (column - 1) * 2\<close> that every region
  operation adds to \<^verbatim>\<open>screen_image\<close>.
\<close>

definition screen_offset :: "int \<Rightarrow> int \<Rightarrow> int \<Rightarrow> int" where
  "screen_offset columns row column = ((row - 1) * 2 * columns) + (column - 1) * 2"

subsection \<open>read and write\<close>

text \<open>
  The caller's buffer is a byte list and \<^verbatim>\<open>buffer\<close> points at its first element.
  \<open>read\<close> returns the buffer as the call leaves it.
\<close>

fun read_rows ::
  "byte list \<Rightarrow> int \<Rightarrow> int \<Rightarrow> nat \<Rightarrow> byte list \<Rightarrow> int \<Rightarrow> nat \<Rightarrow> byte list option" where
  "read_rows img screen_pointer stride row_length buffer bp 0 = Some buffer"
| "read_rows img screen_pointer stride row_length buffer bp (Suc number_of_rows) =
     do {
       buffer' \<leftarrow> memcpy buffer bp img screen_pointer row_length;
       read_rows img (screen_pointer + stride) stride row_length buffer'
         (bp + int row_length) number_of_rows
     }"

definition read :: "scr \<Rightarrow> int \<Rightarrow> int \<Rightarrow> int \<Rightarrow> int \<Rightarrow> byte list \<Rightarrow> byte list option" where
  "read s row column width height buffer =
     (case adjust_dimensions (total_rows s) (total_columns s) row column width height of
        (row, column, width, height) \<Rightarrow>
          do {
            img \<leftarrow> screen_image s;
            read_rows img (screen_offset (total_columns s) row column)
              (2 * total_columns s) (to_unsigned (2 * width)) buffer 0 (to_unsigned height)
          })"

fun write_rows ::
  "byte list \<Rightarrow> int \<Rightarrow> int \<Rightarrow> nat \<Rightarrow> byte list \<Rightarrow> int \<Rightarrow> nat \<Rightarrow> byte list option" where
  "write_rows img screen_pointer stride row_length buffer bp 0 = Some img"
| "write_rows img screen_pointer stride row_length buffer bp (Suc number_of_rows) =
     do {
       img' \<leftarrow> memcpy img screen_pointer buffer bp row_length;
       write_rows img' (screen_pointer + stride) stride row_length buffer
         (bp + int row_length) number_of_rows
     }"

text \<open>\<^verbatim>\<open>write\<close> (the name is a keyword of Isabelle, hence the suffix).\<close>

definition write_scr :: "scr \<Rightarrow> int \<Rightarrow> int \<Rightarrow> int \<Rightarrow> int \<Rightarrow> byte list \<Rightarrow> scr option" where
  "write_scr s row column width height buffer =
     (case adjust_dimensions (total_rows s) (total_columns s) row column width height of
        (row, column, width, height) \<Rightarrow>
          do {
            img \<leftarrow> screen_image s;
            img' \<leftarrow> write_rows img (screen_offset (total_columns s) row column)
              (2 * total_columns s) (to_unsigned (2 * width)) buffer 0 (to_unsigned height);
            Some (s\<lparr>screen_image := Some img'\<rparr>)
          })"

subsection \<open>write_text\<close>

text \<open>The inner loop returns the image and the advanced \<^verbatim>\<open>buffer\<close> pointer.\<close>

function write_text_cells ::
  "byte list \<Rightarrow> int \<Rightarrow> byte list \<Rightarrow> int \<Rightarrow> int \<Rightarrow> int \<Rightarrow> (byte list \<times> int) option" where
  "write_text_cells img destination buffer bp i width =
     (if i < width then
        do {
          ch \<leftarrow> peek buffer bp;
          img' \<leftarrow> poke img destination ch;
          write_text_cells img' (destination + 2) buffer (bp + 1) (i + 1) width
        }
      else Some (img, bp))"
  by pat_completeness auto
termination
  by (relation "measure (\<lambda>(img, destination, buffer, bp, i, width). nat (width - i))") auto

declare write_text_cells.simps [simp del]

fun write_text_rows ::
  "byte list \<Rightarrow> int \<Rightarrow> int \<Rightarrow> byte list \<Rightarrow> int \<Rightarrow> int \<Rightarrow> nat \<Rightarrow> byte list option" where
  "write_text_rows img screen_pointer stride buffer bp width 0 = Some img"
| "write_text_rows img screen_pointer stride buffer bp width (Suc height) =
     do {
       (img', bp') \<leftarrow> write_text_cells img screen_pointer buffer bp 0 width;
       write_text_rows img' (screen_pointer + stride) stride buffer bp' width height
     }"

definition write_text :: "scr \<Rightarrow> int \<Rightarrow> int \<Rightarrow> int \<Rightarrow> int \<Rightarrow> byte list \<Rightarrow> scr option" where
  "write_text s row column width height buffer =
     (case adjust_dimensions (total_rows s) (total_columns s) row column width height of
        (row, column, width, height) \<Rightarrow>
          do {
            img \<leftarrow> screen_image s;
            img' \<leftarrow> write_text_rows img (screen_offset (total_columns s) row column)
              (2 * total_columns s) buffer 0 width (nat height);
            Some (s\<lparr>screen_image := Some img'\<rparr>)
          })"

subsection \<open>print and print_text\<close>

text \<open>
  \<open>formatted\<close> is the text that the format string and its arguments expand to.
  \<^verbatim>\<open>vsnprintf(work_buffer, maximum_print_size + 1, ...)\<close> stores at most
  \<^verbatim>\<open>maximum_print_size\<close> of its bytes and a terminating zero.
\<close>

definition vsnprintf :: "byte list \<Rightarrow> byte list" where
  "vsnprintf formatted = take maximum_print_size formatted @ [0]"

text \<open>
  \<^verbatim>\<open>while (*string && width--)\<close>: the list is what \<^verbatim>\<open>string\<close> points at; the width is
  tested, and decremented, only when the character is not the terminator.
\<close>

fun print_cells :: "byte list \<Rightarrow> int \<Rightarrow> byte list \<Rightarrow> int \<Rightarrow> byte \<Rightarrow> byte list option" where
  "print_cells img screen_pointer [] width attribute = None"
| "print_cells img screen_pointer (ch # string) width attribute =
     (if ch \<noteq> 0 \<and> width \<noteq> 0 then
        do {
          img1 \<leftarrow> poke img screen_pointer ch;
          img2 \<leftarrow> poke img1 (screen_pointer + 1) attribute;
          print_cells img2 (screen_pointer + 2) string (width - 1) attribute
        }
      else Some img)"

definition print :: "scr \<Rightarrow> int \<Rightarrow> int \<Rightarrow> nat \<Rightarrow> int \<Rightarrow> byte list \<Rightarrow> scr option" where
  "print s row column count attribute formatted =
     (case adjust_dimensions (total_rows s) (total_columns s) row column
             (size_t_to_int count) 1 of
        (row, column, width, dummy_height) \<Rightarrow>
          do {
            img \<leftarrow> screen_image s;
            img' \<leftarrow> print_cells img (screen_offset (total_columns s) row column)
              (vsnprintf formatted) width
              (to_char (convert_attribute (color_works s) attribute));
            Some (s\<lparr>screen_image := Some img'\<rparr>)
          })"

fun print_text_cells :: "byte list \<Rightarrow> int \<Rightarrow> byte list \<Rightarrow> int \<Rightarrow> byte list option" where
  "print_text_cells img screen_pointer [] width = None"
| "print_text_cells img screen_pointer (ch # string) width =
     (if ch \<noteq> 0 \<and> width \<noteq> 0 then
        do {
          img1 \<leftarrow> poke img screen_pointer ch;
          print_text_cells img1 (screen_pointer + 2) string (width - 1)
        }
      else Some img)"

definition print_text :: "scr \<Rightarrow> int \<Rightarrow> int \<Rightarrow> nat \<Rightarrow> byte list \<Rightarrow> scr option" where
  "print_text s row column count formatted =
     (case adjust_dimensions (total_rows s) (total_columns s) row column
             (size_t_to_int count) 1 of
        (row, column, width, dummy_height) \<Rightarrow>
          do {
            img \<leftarrow> screen_image s;
            img' \<leftarrow> print_text_cells img (screen_offset (total_columns s) row column)
              (vsnprintf formatted) width;
            Some (s\<lparr>screen_image := Some img'\<rparr>)
          })"

subsection \<open>clear and set_color\<close>

function clear_cells :: "byte list \<Rightarrow> int \<Rightarrow> int \<Rightarrow> int \<Rightarrow> byte \<Rightarrow> byte list option" where
  "clear_cells img destination i width attribute =
     (if i < width then
        do {
          img1 \<leftarrow> poke img destination 32;
          img2 \<leftarrow> poke img1 (destination + 1) attribute;
          clear_cells img2 (destination + 2) (i + 1) width attribute
        }
      else Some img)"
  by pat_completeness auto
termination
  by (relation "measure (\<lambda>(img, destination, i, width, attribute). nat (width - i))") auto

declare clear_cells.simps [simp del]

fun clear_rows :: "byte list \<Rightarrow> int \<Rightarrow> int \<Rightarrow> int \<Rightarrow> byte \<Rightarrow> nat \<Rightarrow> byte list option" where
  "clear_rows img screen_pointer stride width attribute 0 = Some img"
| "clear_rows img screen_pointer stride width attribute (Suc height) =
     do {
       img' \<leftarrow> clear_cells img screen_pointer 0 width attribute;
       clear_rows img' (screen_pointer + stride) stride width attribute height
     }"

definition clear :: "scr \<Rightarrow> int \<Rightarrow> int \<Rightarrow> int \<Rightarrow> int \<Rightarrow> int \<Rightarrow> scr option" where
  "clear s row column width height attribute =
     (case adjust_dimensions (total_rows s) (total_columns s) row column width height of
        (row, column, width, height) \<Rightarrow>
          do {
            img \<leftarrow> screen_image s;
            img' \<leftarrow> clear_rows img (screen_offset (total_columns s) row column)
              (2 * total_columns s) width
              (to_char (convert_attribute (color_works s) attribute)) (nat height);
            Some (s\<lparr>screen_image := Some img'\<rparr>)
          })"

function set_color_cells :: "byte list \<Rightarrow> int \<Rightarrow> int \<Rightarrow> int \<Rightarrow> byte \<Rightarrow> byte list option" where
  "set_color_cells img destination i width attribute =
     (if i < width then
        do {
          img1 \<leftarrow> poke img (destination + 1) attribute;
          set_color_cells img1 (destination + 2) (i + 1) width attribute
        }
      else Some img)"
  by pat_completeness auto
termination
  by (relation "measure (\<lambda>(img, destination, i, width, attribute). nat (width - i))") auto

declare set_color_cells.simps [simp del]

fun set_color_rows :: "byte list \<Rightarrow> int \<Rightarrow> int \<Rightarrow> int \<Rightarrow> byte \<Rightarrow> nat \<Rightarrow> byte list option" where
  "set_color_rows img screen_pointer stride width attribute 0 = Some img"
| "set_color_rows img screen_pointer stride width attribute (Suc height) =
     do {
       img' \<leftarrow> set_color_cells img screen_pointer 0 width attribute;
       set_color_rows img' (screen_pointer + stride) stride width attribute height
     }"

definition set_color :: "scr \<Rightarrow> int \<Rightarrow> int \<Rightarrow> int \<Rightarrow> int \<Rightarrow> int \<Rightarrow> scr option" where
  "set_color s row column width height attribute =
     (case adjust_dimensions (total_rows s) (total_columns s) row column width height of
        (row, column, width, height) \<Rightarrow>
          do {
            img \<leftarrow> screen_image s;
            img' \<leftarrow> set_color_rows img (screen_offset (total_columns s) row column)
              (2 * total_columns s) width
              (to_char (convert_attribute (color_works s) attribute)) (nat height);
            Some (s\<lparr>screen_image := Some img'\<rparr>)
          })"

subsection \<open>scroll\<close>

datatype direction_t = UP | DOWN

text \<open>
  The row loop of \<^verbatim>\<open>scroll\<close>. The two loops of the source differ only in the sign of
  the step added to both pointers, so the step is an argument: \<^verbatim>\<open>2 * total_columns\<close>
  for \<^verbatim>\<open>UP\<close> and its negation for \<^verbatim>\<open>DOWN\<close>.
\<close>

function scroll_rows ::
  "byte list \<Rightarrow> int \<Rightarrow> int \<Rightarrow> int \<Rightarrow> nat \<Rightarrow> int \<Rightarrow> int \<Rightarrow> byte list option" where
  "scroll_rows img screen_pointer source_pointer step row_length row_counter bound =
     (if row_counter < bound then
        do {
          img' \<leftarrow> memcpy_within img screen_pointer source_pointer row_length;
          scroll_rows img' (screen_pointer + step) (source_pointer + step) step row_length
            (row_counter + 1) bound
        }
      else Some img)"
  by pat_completeness auto
termination
  by (relation "measure (\<lambda>(img, screen_pointer, source_pointer, step, row_length,
        row_counter, bound). nat (bound - row_counter))") auto

declare scroll_rows.simps [simp del]

definition scroll ::
  "scr \<Rightarrow> direction_t \<Rightarrow> int \<Rightarrow> int \<Rightarrow> int \<Rightarrow> int \<Rightarrow> int \<Rightarrow> int \<Rightarrow> scr option" where
  "scroll s direction row column width height number_of_rows attribute =
     (if number_of_rows \<le> 0 then Some s
      else
        case adjust_dimensions (total_rows s) (total_columns s) row column width height of
          (row, column, width, height) \<Rightarrow>
            let attribute = convert_attribute (color_works s) attribute in
            if number_of_rows \<ge> height then clear s row column width height attribute
            else if direction = UP then
              do {
                img \<leftarrow> screen_image s;
                let screen_pointer = screen_offset (total_columns s) row column;
                let source_pointer =
                  screen_pointer + int_mul (int_mul number_of_rows 2) (total_columns s);
                img' \<leftarrow> scroll_rows img screen_pointer source_pointer (2 * total_columns s)
                  (to_size_t (int_mul 2 width)) 0 (int_sub height number_of_rows);
                clear (s\<lparr>screen_image := Some img'\<rparr>)
                  (int_add row (int_sub height number_of_rows))
                  column width number_of_rows attribute
              }
            else
              do {
                img \<leftarrow> screen_image s;
                let screen_pointer =
                  int_mul (int_mul (int_sub (int_add (int_sub row 1) height) 1) 2)
                    (total_columns s) + (column - 1) * 2;
                let source_pointer =
                  screen_pointer - int_mul (int_mul number_of_rows 2) (total_columns s);
                img' \<leftarrow> scroll_rows img screen_pointer source_pointer
                  (- (2 * total_columns s)) (to_size_t (int_mul 2 width)) 0
                  (int_sub height number_of_rows);
                clear (s\<lparr>screen_image := Some img'\<rparr>) row column width number_of_rows
                  attribute
              })"

subsection \<open>redraw, refresh and clear_screen (curses)\<close>

function redraw_columns ::
  "byte list \<Rightarrow> int \<Rightarrow> int \<Rightarrow> int \<Rightarrow> curses_call list \<Rightarrow> curses_call list option" where
  "redraw_columns img current_character column_count columns out =
     (if column_count \<le> columns then
        do {
          ch \<leftarrow> peek img current_character;
          at \<leftarrow> peek img (current_character + 1);
          redraw_columns img (current_character + 2) (column_count + 1) columns
            (out @ [Addch ch at])
        }
      else Some out)"
  by pat_completeness auto
termination
  by (relation "measure (\<lambda>(img, current_character, column_count, columns, out).
        nat (columns + 1 - column_count))") auto

declare redraw_columns.simps [simp del]

function redraw_rows ::
  "byte list \<Rightarrow> int \<Rightarrow> int \<Rightarrow> int \<Rightarrow> curses_call list \<Rightarrow> curses_call list option" where
  "redraw_rows img row_count rows columns out =
     (if row_count \<le> rows then
        do {
          out' \<leftarrow> redraw_columns img ((row_count - 1) * 2 * columns) 1 columns
            (out @ [Move (row_count - 1) 0]);
          redraw_rows img (row_count + 1) rows columns out'
        }
      else Some out)"
  by pat_completeness auto
termination
  by (relation "measure (\<lambda>(img, row_count, rows, columns, out). nat (rows + 1 - row_count))")
    auto

declare redraw_rows.simps [simp del]

definition redraw :: "scr \<Rightarrow> scr option" where
  "redraw s =
     do {
       img \<leftarrow> screen_image s;
       out \<leftarrow> redraw_rows img 1 (total_rows s) (total_columns s) (terminal s);
       Some (s\<lparr>terminal :=
         out @ [Move (virtual_row s - 1) (virtual_column s - 1), Curses_refresh]\<rparr>)
     }"

text \<open>
  One pass of the body of the inner loop of \<^verbatim>\<open>refresh\<close>, on the physical image, the
  recorded position of the physical cursor and the calls made so far.
\<close>

definition refresh_cell ::
  "byte list \<Rightarrow> int \<Rightarrow> int \<Rightarrow> int \<Rightarrow> byte list \<times> int \<times> int \<times> curses_call list
     \<Rightarrow> (byte list \<times> int \<times> int \<times> curses_call list) option" where
  "refresh_cell img columns row_count column_count st =
     (case st of (physical, p_row, p_column, out) \<Rightarrow>
        let array_index = (row_count - 1) * 2 * columns + 2 * (column_count - 1) in
        do {
          sc \<leftarrow> peek img array_index;
          pc \<leftarrow> peek physical array_index;
          sa \<leftarrow> peek img (array_index + 1);
          pa \<leftarrow> peek physical (array_index + 1);
          if sc = pc \<and> sa = pa then Some st
          else
            do {
              let (p_row, p_column, out) =
                (if row_count \<noteq> p_row \<or> column_count \<noteq> p_column
                 then (row_count, column_count, out @ [Move (row_count - 1) (column_count - 1)])
                 else (p_row, p_column, out));
              physical1 \<leftarrow> poke physical array_index sc;
              physical2 \<leftarrow> poke physical1 (array_index + 1) sa;
              Some (physical2, p_row, p_column + 1, out @ [Addch sc sa])
            }
        })"

function refresh_columns ::
  "byte list \<Rightarrow> int \<Rightarrow> int \<Rightarrow> int \<Rightarrow> byte list \<times> int \<times> int \<times> curses_call list
     \<Rightarrow> (byte list \<times> int \<times> int \<times> curses_call list) option" where
  "refresh_columns img columns row_count column_count st =
     (if column_count \<le> columns then
        do {
          st' \<leftarrow> refresh_cell img columns row_count column_count st;
          refresh_columns img columns row_count (column_count + 1) st'
        }
      else Some st)"
  by pat_completeness auto
termination
  by (relation "measure (\<lambda>(img, columns, row_count, column_count, st).
        nat (columns + 1 - column_count))") auto

declare refresh_columns.simps [simp del]

function refresh_rows ::
  "byte list \<Rightarrow> int \<Rightarrow> int \<Rightarrow> int \<Rightarrow> byte list \<times> int \<times> int \<times> curses_call list
     \<Rightarrow> (byte list \<times> int \<times> int \<times> curses_call list) option" where
  "refresh_rows img rows columns row_count st =
     (if row_count \<le> rows then
        do {
          st' \<leftarrow> refresh_columns img columns row_count 1 st;
          refresh_rows img rows columns (row_count + 1) st'
        }
      else Some st)"
  by pat_completeness auto
termination
  by (relation "measure (\<lambda>(img, rows, columns, row_count, st). nat (rows + 1 - row_count))")
    auto

declare refresh_rows.simps [simp del]

definition refresh :: "scr \<Rightarrow> scr option" where
  "refresh s =
     do {
       img \<leftarrow> screen_image s;
       physical \<leftarrow> physical_image s;
       (physical', p_row, p_column, out) \<leftarrow>
         refresh_rows img (total_rows s) (total_columns s) 1
           (physical, physical_row s, physical_column s, terminal s);
       Some (s\<lparr>physical_image := Some physical',
                physical_row := virtual_row s, physical_column := virtual_column s,
                terminal :=
                  out @ [Move (virtual_row s - 1) (virtual_column s - 1), Curses_refresh]\<rparr>)
     }"

function clear_screen_loop ::
  "byte list \<Rightarrow> byte list \<Rightarrow> int \<Rightarrow> int \<Rightarrow> (byte list \<times> byte list) option" where
  "clear_screen_loop img physical counter bound =
     (if counter < bound then
        do {
          img1 \<leftarrow> poke img counter 32;
          img2 \<leftarrow> poke img1 (counter + 1) (to_char (WHITE OR REV_BLACK));
          physical1 \<leftarrow> poke physical counter 32;
          physical2 \<leftarrow> poke physical1 (counter + 1) (to_char (WHITE OR REV_BLACK));
          clear_screen_loop img2 physical2 (counter + 2) bound
        }
      else Some (img, physical))"
  by pat_completeness auto
termination
  by (relation "measure (\<lambda>(img, physical, counter, bound). nat (bound - counter))") auto

declare clear_screen_loop.simps [simp del]

definition clear_screen :: "scr \<Rightarrow> scr option" where
  "clear_screen s =
     do {
       img \<leftarrow> screen_image s;
       physical \<leftarrow> physical_image s;
       (img', physical') \<leftarrow>
         clear_screen_loop img physical 0 (total_rows s * 2 * total_columns s);
       Some (s\<lparr>screen_image := Some img', physical_image := Some physical',
                virtual_row := 1, virtual_column := 1,
                physical_row := 1, physical_column := 1,
                terminal := terminal s @ [Werase, Move 0 0, Curses_refresh]\<rparr>)
     }"

subsection \<open>initialize and terminate\<close>

text \<open>
  \<^verbatim>\<open>initialize\<close>: \<open>lines\<close> and \<open>cols\<close> are what curses reports in \<^verbatim>\<open>LINES\<close> and \<^verbatim>\<open>COLS\<close>,
  and \<open>start_color_ok\<close> says whether \<^verbatim>\<open>start_color()\<close> succeeded. The fresh arrays
  are shown zero-filled; \<^verbatim>\<open>clear_screen\<close> overwrites every byte before anything reads
  one. The function returns \<^verbatim>\<open>true\<close> on both paths.
\<close>

definition initialize :: "nat \<Rightarrow> nat \<Rightarrow> bool \<Rightarrow> scr \<Rightarrow> scr option" where
  "initialize lines cols start_color_ok s =
     (if initialize_counter s > 0
      then Some (s\<lparr>initialize_counter := initialize_counter s + 1\<rparr>)
      else
        do {
          let s1 = s\<lparr>terminal := terminal s @ [Initialize_key, Initscr],
                     color_works := start_color_ok,
                     total_rows := int lines, max_rows := int lines,
                     total_columns := int cols, max_columns := int cols\<rparr>;
          let s2 = s1\<lparr>screen_image := Some (replicate (lines * 2 * cols) 0),
                      physical_image := Some (replicate (lines * 2 * cols) 0),
                      heap_log := heap_log s1 @ [New_screen_image, New_physical_image]\<rparr>;
          s3 \<leftarrow> clear_screen s2;
          Some (s3\<lparr>initialize_counter := initialize_counter s3 + 1\<rparr>)
        })"

function blank_loop :: "byte list \<Rightarrow> int \<Rightarrow> int \<Rightarrow> byte list option" where
  "blank_loop img counter bound =
     (if counter < bound then
        do {
          img1 \<leftarrow> poke img counter 32;
          img2 \<leftarrow> poke img1 (counter + 1) (to_char (WHITE OR REV_BLACK));
          blank_loop img2 (counter + 2) bound
        }
      else Some img)"
  by pat_completeness auto
termination
  by (relation "measure (\<lambda>(img, counter, bound). nat (bound - counter))") auto

declare blank_loop.simps [simp del]

text \<open>
  \<^verbatim>\<open>terminate\<close>. \<^verbatim>\<open>delete[]\<close> of a null pointer does nothing, so it is logged only for an
  image that is allocated; both pointers are null afterwards.
\<close>

definition terminate :: "scr \<Rightarrow> scr option" where
  "terminate s =
     (if initialize_counter s = 0 then Some s
      else
        let s1 = s\<lparr>initialize_counter := initialize_counter s - 1\<rparr> in
        if initialize_counter s1 \<noteq> 0 then Some s1
        else
          do {
            img \<leftarrow> screen_image s1;
            img' \<leftarrow> blank_loop img 0 (total_rows s1 * 2 * total_columns s1);
            s2 \<leftarrow> redraw (s1\<lparr>screen_image := Some img', virtual_row := 1,
                                virtual_column := 1\<rparr>);
            let s3 = s2\<lparr>terminal := terminal s2 @ [Endwin]\<rparr>;
            let s4 = s3\<lparr>screen_image := None,
                        heap_log := heap_log s3 @ [Delete_screen_image]\<rparr>;
            let s5 = s4\<lparr>physical_image := None,
                        heap_log := heap_log s4 @
                          (case physical_image s4 of None \<Rightarrow> []
                           | Some p \<Rightarrow> [Delete_physical_image])\<rparr>;
            Some (s5\<lparr>terminal := terminal s5 @ [Terminate_key]\<rparr>)
          })"

subsection \<open>Sequences of mutations\<close>

text \<open>The operations that change the virtual image, as values, and a run of them.\<close>

datatype mutation =
  Write int int int int "byte list"
  | Write_text int int int int "byte list"
  | Print int int nat int "byte list"
  | Print_text int int nat "byte list"
  | Clear int int int int int
  | Set_color int int int int int
  | Scroll direction_t int int int int int int

fun mutate :: "scr \<Rightarrow> mutation \<Rightarrow> scr option" where
  "mutate s (Write row column width height buffer) = write_scr s row column width height buffer"
| "mutate s (Write_text row column width height buffer) =
     write_text s row column width height buffer"
| "mutate s (Print row column count attribute formatted) =
     print s row column count attribute formatted"
| "mutate s (Print_text row column count formatted) = print_text s row column count formatted"
| "mutate s (Clear row column width height attribute) = clear s row column width height attribute"
| "mutate s (Set_color row column width height attribute) =
     set_color s row column width height attribute"
| "mutate s (Scroll direction row column width height number_of_rows attribute) =
     scroll s direction row column width height number_of_rows attribute"

fun mutate_all :: "scr \<Rightarrow> mutation list \<Rightarrow> scr option" where
  "mutate_all s [] = Some s"
| "mutate_all s (m # ms) = do { s' \<leftarrow> mutate s m; mutate_all s' ms }"

subsection \<open>Notions used to state the properties\<close>

text \<open>The values the globals have when the program starts (their static initializers).\<close>

definition static_scr :: scr where
  "static_scr =
     \<lparr>total_rows = 24, total_columns = 80, max_rows = 24, max_columns = 80,
      initialize_counter = 0, color_works = False,
      screen_image = None, physical_image = None,
      virtual_row = 1, virtual_column = 1, physical_row = 1, physical_column = 1,
      terminal = [], heap_log = []\<rparr>"

text \<open>
  The byte at an offset, and the character and attribute of the cell at a row and a
  column of an image (the cell's two bytes lie at \<open>screen_offset\<close> and the byte after).
\<close>

definition byte_at :: "byte list \<Rightarrow> int \<Rightarrow> byte" where
  "byte_at mem p = mem ! nat p"

definition char_at :: "int \<Rightarrow> byte list \<Rightarrow> int \<Rightarrow> int \<Rightarrow> byte" where
  "char_at columns img row column = byte_at img (screen_offset columns row column)"

definition attr_at :: "int \<Rightarrow> byte list \<Rightarrow> int \<Rightarrow> int \<Rightarrow> byte" where
  "attr_at columns img row column = byte_at img (screen_offset columns row column + 1)"

definition cell_at :: "int \<Rightarrow> byte list \<Rightarrow> int \<Rightarrow> int \<Rightarrow> byte \<times> byte" where
  "cell_at columns img row column = (char_at columns img row column, attr_at columns img row column)"

text \<open>The length of the C string that starts a byte list: the bytes before the first zero.\<close>

definition strlen :: "byte list \<Rightarrow> int" where
  "strlen str = int (length (takeWhile (\<lambda>ch. ch \<noteq> 0) str))"

text \<open>Both images are allocated and have the size of the screen.\<close>

definition allocated :: "scr \<Rightarrow> bool" where
  "allocated s \<longleftrightarrow>
     0 \<le> total_rows s \<and> 0 \<le> total_columns s
     \<and> (case screen_image s of None \<Rightarrow> False
        | Some img \<Rightarrow> int (length img) = total_rows s * 2 * total_columns s)
     \<and> (case physical_image s of None \<Rightarrow> False
        | Some physical \<Rightarrow> int (length physical) = total_rows s * 2 * total_columns s)"

text \<open>
  A session as \<^verbatim>\<open>initialize\<close> sets it up on a terminal of at least one row and one
  column: both images allocated with the size of the screen, which is small enough for
  the size of an image to be an \<^verbatim>\<open>int\<close>.
\<close>

definition active_session :: "scr \<Rightarrow> bool" where
  "active_session s \<longleftrightarrow>
     allocated s \<and> 1 \<le> total_rows s \<and> 1 \<le> total_columns s
     \<and> total_rows s * 2 * total_columns s < 2 ^ 31"

text \<open>A blank colour screen of two rows and three columns, for the examples.\<close>

definition small_scr :: scr where
  "small_scr =
     \<lparr>total_rows = 2, total_columns = 3, max_rows = 2, max_columns = 3,
      initialize_counter = 1, color_works = True,
      screen_image = Some [32, 7, 32, 7, 32, 7, 32, 7, 32, 7, 32, 7],
      physical_image = Some [32, 7, 32, 7, 32, 7, 32, 7, 32, 7, 32, 7],
      virtual_row = 1, virtual_column = 1, physical_row = 1, physical_column = 1,
      terminal = [], heap_log = [New_screen_image, New_physical_image]\<rparr>"

text \<open>A screen of three rows and two columns with a different byte in every place.\<close>

definition sample_scr :: scr where
  "sample_scr =
     \<lparr>total_rows = 3, total_columns = 2, max_rows = 3, max_columns = 2,
      initialize_counter = 1, color_works = True,
      screen_image = Some [65, 1, 66, 2, 67, 3, 68, 4, 69, 5, 70, 6],
      physical_image = Some [32, 7, 32, 7, 32, 7, 32, 7, 32, 7, 32, 7],
      virtual_row = 1, virtual_column = 1, physical_row = 1, physical_column = 1,
      terminal = [], heap_log = [New_screen_image, New_physical_image]\<rparr>"

text \<open>
  A screen of one row and 1100 columns, all bytes zero: wide enough for a text of more
  than 1024 characters.
\<close>

definition wide_scr :: scr where
  "wide_scr =
     \<lparr>total_rows = 1, total_columns = 1100, max_rows = 1, max_columns = 1100,
      initialize_counter = 1, color_works = True,
      screen_image = Some (replicate 2200 0),
      physical_image = Some (replicate 2200 0),
      virtual_row = 1, virtual_column = 1, physical_row = 1, physical_column = 1,
      terminal = [], heap_log = [New_screen_image, New_physical_image]\<rparr>"

text \<open>
  No addition of \<^verbatim>\<open>adjust_dimensions\<close> overflows: the clamped row plus the height, and
  the clamped column plus the width (height and width brought to at least 1), are at most
  \<^verbatim>\<open>INT_MAX\<close>.
\<close>

definition sums_in_int :: "int \<Rightarrow> int \<Rightarrow> int \<Rightarrow> int \<Rightarrow> int \<Rightarrow> int \<Rightarrow> bool" where
  "sums_in_int rows columns r c w h \<longleftrightarrow>
     min rows (max 1 r) + max 1 h \<le> INT_MAX \<and> min columns (max 1 c) + max 1 w \<le> INT_MAX"

text \<open>The same for the region that a mutation hands to \<^verbatim>\<open>adjust_dimensions\<close>.\<close>

fun clamp_fits :: "int \<Rightarrow> int \<Rightarrow> mutation \<Rightarrow> bool" where
  "clamp_fits rows columns (Write row column width height buffer) =
     sums_in_int rows columns row column width height"
| "clamp_fits rows columns (Write_text row column width height buffer) =
     sums_in_int rows columns row column width height"
| "clamp_fits rows columns (Print row column count attribute formatted) =
     sums_in_int rows columns row column (size_t_to_int count) 1"
| "clamp_fits rows columns (Print_text row column count formatted) =
     sums_in_int rows columns row column (size_t_to_int count) 1"
| "clamp_fits rows columns (Clear row column width height attribute) =
     sums_in_int rows columns row column width height"
| "clamp_fits rows columns (Set_color row column width height attribute) =
     sums_in_int rows columns row column width height"
| "clamp_fits rows columns (Scroll direction row column width height number_of_rows attribute) =
     sums_in_int rows columns row column width height"

text \<open>
  The caller's buffer of a \<^verbatim>\<open>write\<close> or a \<^verbatim>\<open>write_text\<close> is as large as the function
  assumes for the clamped region: \<^verbatim>\<open>2 * width * height\<close> bytes, or \<^verbatim>\<open>width * height\<close>.
  The other mutations take no buffer.
\<close>

fun buffer_fits :: "int \<Rightarrow> int \<Rightarrow> mutation \<Rightarrow> bool" where
  "buffer_fits rows columns (Write row column width height buffer) =
     (case adjust_dimensions rows columns row column width height of
        (r, c, w, h) \<Rightarrow> 2 * w * h \<le> int (length buffer))"
| "buffer_fits rows columns (Write_text row column width height buffer) =
     (case adjust_dimensions rows columns row column width height of
        (r, c, w, h) \<Rightarrow> w * h \<le> int (length buffer))"
| "buffer_fits rows columns m = True"

section \<open>Region clamping\<close>

subsection \<open>Arithmetic of \<^verbatim>\<open>int\<close>\<close>

lemma int_wrap_id: "- 2147483648 \<le> i \<Longrightarrow> i \<le> 2147483647 \<Longrightarrow> int_wrap i = i"
  by (simp add: int_wrap_def)

lemma int_wrap_range: "- 2147483648 \<le> int_wrap i" "int_wrap i \<le> 2147483647"
  unfolding int_wrap_def
  using pos_mod_bound [of 4294967296 "i + 2147483648"]
    pos_mod_sign [of 4294967296 "i + 2147483648"]
  by simp_all

lemma int_wrap_sub: "int_wrap (int_wrap a - b) = int_wrap (a - b)"
proof -
  have "((a + 2147483648) mod 4294967296 - 2147483648 - b + 2147483648) mod 4294967296
      = ((a + 2147483648) mod 4294967296 + (- b)) mod (4294967296::int)"
    by simp
  also have "\<dots> = (a + 2147483648 + (- b)) mod 4294967296"
    by (rule mod_add_left_eq)
  finally show ?thesis by (simp add: int_wrap_def algebra_simps)
qed

subsection \<open>The clamp where no sum overflows\<close>

lemma clamp_extent:
  assumes "1 \<le> r" and "r \<le> rows" and "1 \<le> h" and "r + h \<le> INT_MAX"
  shows "(if int_sub (int_add r h) 1 > rows then int_add (int_sub rows r) 1 else h)
    = min h (rows - r + 1)"
proof -
  have a: "int_sub (int_add r h) 1 = r + h - 1"
    using assms by (simp add: int_add_def int_sub_def int_wrap_id INT_MAX_def)
  show ?thesis
  proof (cases "r + h - 1 > rows")
    case True
    then have "rows \<le> 2147483647" using assms by (simp add: INT_MAX_def)
    then have "int_add (int_sub rows r) 1 = rows - r + 1"
      using assms by (simp add: int_add_def int_sub_def int_wrap_id)
    with True show ?thesis by (simp add: a)
  next
    case False
    then show ?thesis by (simp add: a)
  qed
qed

lemma adjust_dimensions_no_overflow:
  assumes "1 \<le> rows" and "1 \<le> columns" and "sums_in_int rows columns r c w h"
  shows "adjust_dimensions rows columns r c w h =
    (min rows (max 1 r), min columns (max 1 c),
     min (max 1 w) (columns - min columns (max 1 c) + 1),
     min (max 1 h) (rows - min rows (max 1 r) + 1))"
proof -
  let ?r = "min rows (max 1 r)" and ?c = "min columns (max 1 c)"
  let ?h = "max 1 h" and ?w = "max 1 w"
  have r: "(let x = (if r < 1 then 1 else r) in if x > rows then rows else x) = ?r"
    using assms(1) by (auto simp add: Let_def)
  have c: "(let x = (if c < 1 then 1 else c) in if x > columns then columns else x) = ?c"
    using assms(2) by (auto simp add: Let_def)
  have h: "(if h \<le> 0 then 1 else h) = ?h" and w: "(if w \<le> 0 then 1 else w) = ?w"
    by auto
  have eh: "(if int_sub (int_add ?r ?h) 1 > rows then int_add (int_sub rows ?r) 1 else ?h)
      = min ?h (rows - ?r + 1)"
    using assms by (intro clamp_extent) (auto simp add: sums_in_int_def)
  have ew: "(if int_sub (int_add ?c ?w) 1 > columns then int_add (int_sub columns ?c) 1 else ?w)
      = min ?w (columns - ?c + 1)"
    using assms by (intro clamp_extent) (auto simp add: sums_in_int_def)
  have "adjust_dimensions rows columns r c w h =
    (?r, ?c,
     (if int_sub (int_add ?c ?w) 1 > columns then int_add (int_sub columns ?c) 1 else ?w),
     (if int_sub (int_add ?r ?h) 1 > rows then int_add (int_sub rows ?r) 1 else ?h))"
    unfolding adjust_dimensions_def
    using r c by (simp add: Let_def h w)
  then show ?thesis unfolding eh ew .
qed

lemma adjust_dimensions_bounds:
  assumes "1 \<le> rows" and "1 \<le> columns"
    and "adjust_dimensions rows columns r c w h = (r', c', w', h')"
    and "sums_in_int rows columns r c w h"
  shows "1 \<le> r'" and "r' \<le> rows" and "1 \<le> c'" and "c' \<le> columns"
    and "1 \<le> w'" and "1 \<le> h'" and "r' + h' - 1 \<le> rows" and "c' + w' - 1 \<le> columns"
    and "w' \<le> max 1 w" and "h' \<le> max 1 h"
proof -
  from assms(3) have e: "r' = min rows (max 1 r)" "c' = min columns (max 1 c)"
    "w' = min (max 1 w) (columns - min columns (max 1 c) + 1)"
    "h' = min (max 1 h) (rows - min rows (max 1 r) + 1)"
    unfolding adjust_dimensions_no_overflow [OF assms(1,2,4)] by auto
  show rc: "1 \<le> r'" "r' \<le> rows" "1 \<le> c'" "c' \<le> columns"
    using assms(1,2) unfolding e(1,2) by (simp_all add: min_def max_def)
  have e': "w' = min (max 1 w) (columns - c' + 1)" "h' = min (max 1 h) (rows - r' + 1)"
    using e by simp_all
  show "1 \<le> w'" "1 \<le> h'" "w' \<le> max 1 w" "h' \<le> max 1 h"
    using rc unfolding e' by (simp_all add: min_def)
  show "r' + h' - 1 \<le> rows" "c' + w' - 1 \<le> columns"
    using rc unfolding e' by (auto simp add: min_def max_def)
qed

lemma adjust_dimensions_corner:
  assumes "1 \<le> rows" and "1 \<le> columns"
    and "adjust_dimensions rows columns r c w h = (r', c', w', h')"
  shows "r' = min rows (max 1 r)" and "c' = min columns (max 1 c)"
  using assms unfolding adjust_dimensions_def Let_def
  by (auto split: if_splits)

lemma adjust_dimensions_on_screen:
  assumes "1 \<le> r" and "1 \<le> c" and "1 \<le> w" and "1 \<le> h"
    and "r + h - 1 \<le> rows" and "c + w - 1 \<le> columns"
    and "rows < INT_MAX" and "columns < INT_MAX"
  shows "adjust_dimensions rows columns r c w h = (r, c, w, h)"
    and "sums_in_int rows columns r c w h"
proof -
  show f: "sums_in_int rows columns r c w h"
    using assms by (auto simp add: sums_in_int_def)
  have "1 \<le> rows" "1 \<le> columns" using assms by arith+
  from adjust_dimensions_no_overflow [OF this f] assms
  show "adjust_dimensions rows columns r c w h = (r, c, w, h)"
    by auto
qed

subsection \<open>Clamping twice\<close>

lemma adjust_dimensions_positive:
  assumes "1 \<le> rows" and "rows \<le> INT_MAX" and "1 \<le> columns" and "columns \<le> INT_MAX"
    and "adjust_dimensions rows columns r c w h = (r', c', w', h')"
  shows "1 \<le> w'" and "1 \<le> h'"
proof -
  define r1 where "r1 = (let x = (if r < 1 then 1 else r) in if x > rows then rows else x)"
  define c1 where
    "c1 = (let x = (if c < 1 then 1 else c) in if x > columns then columns else x)"
  define h1 where "h1 = (if h \<le> 0 then 1 else h)"
  define w1 where "w1 = (if w \<le> 0 then 1 else w)"
  have b: "1 \<le> r1" "r1 \<le> rows" "1 \<le> c1" "c1 \<le> columns"
    using assms(1,3) by (auto simp add: r1_def c1_def Let_def)
  have u: "adjust_dimensions rows columns r c w h =
      (r1, c1,
       (if int_sub (int_add c1 w1) 1 > columns then int_add (int_sub columns c1) 1 else w1),
       (if int_sub (int_add r1 h1) 1 > rows then int_add (int_sub rows r1) 1 else h1))"
    unfolding adjust_dimensions_def r1_def c1_def h1_def w1_def by (simp add: Let_def)
  have e:
    "h' = (if int_sub (int_add r1 h1) 1 > rows then int_add (int_sub rows r1) 1 else h1)"
    "w' = (if int_sub (int_add c1 w1) 1 > columns then int_add (int_sub columns c1) 1 else w1)"
    using assms(5) unfolding u by auto
  have "1 \<le> h1" "1 \<le> w1" by (simp_all add: h1_def w1_def)
  moreover have "1 \<le> int_add (int_sub rows r1) 1" "1 \<le> int_add (int_sub columns c1) 1"
    using b assms(2,4) by (simp_all add: int_add_def int_sub_def int_wrap_id INT_MAX_def)
  ultimately show "1 \<le> w'" "1 \<le> h'" unfolding e by simp_all
qed

lemma clamp_again:
  assumes "1 \<le> x" and "x \<le> lim" and "lim \<le> INT_MAX"
    and "y' = (if int_sub (int_add x y) 1 > lim then int_add (int_sub lim x) 1 else y)"
  shows "(if int_sub (int_add x y') 1 > lim then int_add (int_sub lim x) 1 else y') = y'"
proof (cases "int_sub (int_add x y) 1 > lim")
  case True
  have d: "int_add (int_sub lim x) 1 = lim - x + 1"
    using assms(1,2,3) by (simp add: int_add_def int_sub_def int_wrap_id INT_MAX_def)
  with True assms(4) have y': "y' = lim - x + 1" by simp
  have "int_sub (int_add x y') 1 = lim"
    using assms(1,2,3) unfolding y' int_add_def int_sub_def int_wrap_sub
    by (simp add: int_wrap_id INT_MAX_def)
  then show ?thesis by simp
next
  case False
  with assms(4) have "y' = y" by simp
  with False show ?thesis by simp
qed

lemma adjust_dimensions_again:
  assumes "1 \<le> rows" and "rows \<le> INT_MAX" and "1 \<le> columns" and "columns \<le> INT_MAX"
    and "adjust_dimensions rows columns r c w h = (r', c', w', h')"
  shows "adjust_dimensions rows columns r' c' w' h' = (r', c', w', h')"
proof -
  define r1 where "r1 = (let x = (if r < 1 then 1 else r) in if x > rows then rows else x)"
  define c1 where
    "c1 = (let x = (if c < 1 then 1 else c) in if x > columns then columns else x)"
  define h1 where "h1 = (if h \<le> 0 then 1 else h)"
  define w1 where "w1 = (if w \<le> 0 then 1 else w)"
  have b: "1 \<le> r1" "r1 \<le> rows" "1 \<le> c1" "c1 \<le> columns"
    using assms(1,3) by (auto simp add: r1_def c1_def Let_def)
  have u: "adjust_dimensions rows columns r c w h =
      (r1, c1,
       (if int_sub (int_add c1 w1) 1 > columns then int_add (int_sub columns c1) 1 else w1),
       (if int_sub (int_add r1 h1) 1 > rows then int_add (int_sub rows r1) 1 else h1))"
    unfolding adjust_dimensions_def r1_def c1_def h1_def w1_def by (simp add: Let_def)
  have e: "r' = r1" "c' = c1"
    "h' = (if int_sub (int_add r1 h1) 1 > rows then int_add (int_sub rows r1) 1 else h1)"
    "w' = (if int_sub (int_add c1 w1) 1 > columns then int_add (int_sub columns c1) 1 else w1)"
    using assms(5) unfolding u by auto
  have p: "1 \<le> h'" "1 \<le> w'"
  proof -
    have "1 \<le> h1" "1 \<le> w1" by (simp_all add: h1_def w1_def)
    moreover have "1 \<le> int_add (int_sub rows r1) 1" "1 \<le> int_add (int_sub columns c1) 1"
      using b assms(2,4) by (simp_all add: int_add_def int_sub_def int_wrap_id INT_MAX_def)
    ultimately show "1 \<le> h'" "1 \<le> w'" unfolding e by simp_all
  qed
  have ah: "(if int_sub (int_add r1 h') 1 > rows then int_add (int_sub rows r1) 1 else h') = h'"
    using b(1,2) assms(2) e(3) by (rule clamp_again)
  have aw: "(if int_sub (int_add c1 w') 1 > columns then int_add (int_sub columns c1) 1 else w')
      = w'"
    using b(3,4) assms(4) e(4) by (rule clamp_again)
  have "adjust_dimensions rows columns r1 c1 w' h' =
      (r1, c1,
       (if int_sub (int_add c1 w') 1 > columns then int_add (int_sub columns c1) 1 else w'),
       (if int_sub (int_add r1 h') 1 > rows then int_add (int_sub rows r1) 1 else h'))"
    unfolding adjust_dimensions_def using b p by (simp add: Let_def)
  also have "\<dots> = (r1, c1, w', h')"
    by (simp only: ah aw)
  finally show ?thesis unfolding e(1,2) .
qed

subsection \<open>The clamp where a sum overflows\<close>

text \<open>
  C5. The claim asks, for every four integers, that the clamped region satisfies
  \<open>row + height - 1 \<le> total_rows\<close>. On a screen of 24 rows and 80 columns the call
  \<^verbatim>\<open>adjust_dimensions(2, 1, 1, INT_MAX)\<close> computes \<^verbatim>\<open>r + h - 1\<close> as \<open>2 + 2147483647 - 1\<close>,
  which is not an \<^verbatim>\<open>int\<close>; the wrapped sum is negative, the test
  \<^verbatim>\<open>r + h - 1 > total_rows\<close> fails and the height stays \<open>2147483647\<close>: the region returned
  ends far below the last row. The same happens to the width. Clamping the result
  again does not change it (\<open>adjust_dimensions_again\<close>), and where no sum overflows the
  region returned is on the screen (\<open>adjust_dimensions_bounds\<close>).
\<close>

theorem adjust_dimensions_overflow_off_screen:
  "adjust_dimensions 24 80 2 1 1 2147483647 = (2, 1, 1, 2147483647)
   \<and> adjust_dimensions 24 80 1 2 2147483647 1 = (1, 2, 2147483647, 1)
   \<and> (24::int) < 2 + 2147483647 - 1 \<and> (80::int) < 2 + 2147483647 - 1"
  by (simp add: adjust_dimensions_def int_add_def int_sub_def int_wrap_def)


section \<open>Attributes\<close>

subsection \<open>Bits of the masks\<close>

lemma bit_0x07: "bit (0x07::int) n \<longleftrightarrow> n < 3"
proof -
  have e: "(0x07::int) = mask 3" by (simp add: mask_eq_exp_minus_1)
  show ?thesis unfolding e by (simp add: bit_simps)
qed

lemma bit_0x70: "bit (0x70::int) n \<longleftrightarrow> 4 \<le> n \<and> n < 7"
proof -
  have e: "(0x70::int) = push_bit 4 (mask 3)" by (simp add: mask_eq_exp_minus_1)
  show ?thesis unfolding e by (auto simp add: bit_simps)
qed

lemma bit_0xf8: "bit (0xf8::int) n \<longleftrightarrow> 3 \<le> n \<and> n < 8"
proof -
  have e: "(0xf8::int) = push_bit 3 (mask 5)" by (simp add: mask_eq_exp_minus_1)
  show ?thesis unfolding e by (auto simp add: bit_simps)
qed

lemma bit_0x8f: "bit (0x8f::int) n \<longleftrightarrow> n < 4 \<or> n = 7"
proof -
  have e: "(0x8f::int) = mask 4 OR 2 ^ 7" by (simp add: mask_eq_exp_minus_1)
  show ?thesis unfolding e by (simp only: bit_or_iff bit_mask_iff bit_exp_iff) auto
qed

lemma bit_0x88: "bit (0x88::int) n \<longleftrightarrow> n = 3 \<or> n = 7"
proof -
  have e: "(0x88::int) = 2 ^ 3 OR 2 ^ 7" by simp
  show ?thesis unfolding e by (simp only: bit_or_iff bit_exp_iff) auto
qed

lemma bit_of_byte_value: "0 \<le> a \<Longrightarrow> a < 256 \<Longrightarrow> bit a n \<Longrightarrow> n < 8" for a :: int
proof (rule ccontr)
  assume a: "0 \<le> a" "a < 256" "bit a n" "\<not> n < 8"
  then have "(2::int) ^ 8 \<le> 2 ^ n" by (intro power_increasing) auto
  with a have "a < 2 ^ n" by simp
  with a show False by (simp add: bit_iff_odd)
qed

subsection \<open>reverse_attribute\<close>

text \<open>Bit \<open>n\<close> of the reversed attribute, for every integer attribute.\<close>

lemma bit_reverse_attribute:
  "bit (reverse_attribute a) n \<longleftrightarrow>
     (n < 3 \<and> bit a (n + 4)) \<or> (n = 3 \<and> bit a 3) \<or> (4 \<le> n \<and> n < 7 \<and> bit a (n - 4))
     \<or> (n = 7 \<and> bit a 7)"
proof -
  consider "n < 3" | "n = 3" | "4 \<le> n" "n < 7" | "n = 7" | "7 < n" by linarith
  then show ?thesis
    unfolding reverse_attribute_def Let_def
    by cases (simp_all add: bit_simps bit_0x07 bit_0x70 bit_0xf8 bit_0x8f add.commute)
qed

lemma reverse_attribute_foreground:
  "reverse_attribute a AND 0x07 = drop_bit 4 (a AND 0x70)"
  by (rule bit_eqI) (auto simp add: bit_simps bit_0x07 bit_0x70 bit_reverse_attribute add.commute)

lemma reverse_attribute_background:
  "drop_bit 4 (reverse_attribute a AND 0x70) = a AND 0x07"
  by (rule bit_eqI) (auto simp add: bit_simps bit_0x07 bit_0x70 bit_reverse_attribute add.commute)

lemma reverse_attribute_effects: "reverse_attribute a AND 0x88 = a AND 0x88"
  by (rule bit_eqI) (auto simp add: bit_simps bit_0x88 bit_reverse_attribute)

lemma reverse_attribute_twice:
  assumes "0 \<le> a" and "a < 256"
  shows "reverse_attribute (reverse_attribute a) = a"
proof (rule bit_eqI)
  fix n :: nat
  consider "n < 3" | "n = 3" | "4 \<le> n" "n < 7" | "n = 7" | "7 < n" by linarith
  then show "bit (reverse_attribute (reverse_attribute a)) n = bit a n"
    using bit_of_byte_value [OF assms, of n]
    by cases (auto simp add: bit_reverse_attribute)
qed

text \<open>
  C6. For every 8-bit attribute \<open>a\<close>, reversing twice gives \<open>a\<close> back; the reversed
  attribute carries the old background field (mask \<open>0x70\<close>) in its foreground field
  (mask \<open>0x07\<close>) and the old foreground field in its background field, and its blink
  bit (\<open>0x80\<close>) and bright bit (\<open>0x08\<close>) are those of \<open>a\<close>.
\<close>

theorem reverse_attribute_involution:
  assumes "0 \<le> a" and "a < 256"
  shows "reverse_attribute (reverse_attribute a) = a
    \<and> reverse_attribute a AND 0x07 = drop_bit 4 (a AND 0x70)
    \<and> drop_bit 4 (reverse_attribute a AND 0x70) = a AND 0x07
    \<and> reverse_attribute a AND 0x88 = a AND 0x88"
  using reverse_attribute_twice [OF assms] reverse_attribute_foreground [of a]
    reverse_attribute_background [of a] reverse_attribute_effects [of a]
  by simp

theorem reverse_attribute_involution_witness:
  "reverse_attribute 0x9C = 0xC9 \<and> reverse_attribute (reverse_attribute 0x9C) = 0x9C
   \<and> reverse_attribute 0x9C AND 0x07 = drop_bit 4 (0x9C AND 0x70)
   \<and> reverse_attribute 0x9C AND 0x88 = 0x9C AND 0x88"
proof -
  have "reverse_attribute 0x9C = 0xC9"
    by (simp add: reverse_attribute_def Let_def)
  with reverse_attribute_involution [of "0x9C"] show ?thesis by simp
qed

subsection \<open>convert_attribute\<close>

lemma or_white_foreground: "(a OR 0x07) AND 0x07 = (0x07::int)"
  by (rule bit_eqI) (auto simp add: bit_simps bit_0x07)

lemma or_white_effects: "(a OR 0x07) AND 0x88 = a AND (0x88::int)"
  by (rule bit_eqI) (auto simp add: bit_simps bit_0x07 bit_0x88)

lemma or_white_background: "(a OR 0x07) AND 0x70 = a AND (0x70::int)"
  by (rule bit_eqI) (auto simp add: bit_simps bit_0x07 bit_0x70)

lemma reverse_video_background: "((a OR 0x70) AND 0xF8) AND 0x70 = (0x70::int)"
  by (rule bit_eqI) (auto simp add: bit_simps bit_0xf8 bit_0x70)

lemma reverse_video_foreground: "((a OR 0x70) AND 0xF8) AND 0x07 = (0::int)"
  by (rule bit_eqI) (auto simp add: bit_simps bit_0xf8 bit_0x70 bit_0x07)

lemma reverse_video_effects: "((a OR 0x70) AND 0xF8) AND 0x88 = a AND (0x88::int)"
  by (rule bit_eqI) (auto simp add: bit_simps bit_0xf8 bit_0x70 bit_0x88)

text \<open>
  C7. With colour, \<open>convert_attribute\<close> returns every attribute as it is. Without
  colour: when the background bits (mask \<open>0x70\<close>) are zero the result is the attribute
  with the foreground bits all set (\<open>0x07\<close>) and the background still zero; otherwise
  the result has the background bits all set (\<open>0x70\<close>) and the foreground bits zero.
  The blink and bright bits (mask \<open>0x88\<close>) are unchanged in both cases. In particular
  \<open>0x20\<close> becomes \<open>0x70\<close> and \<open>0x00\<close> becomes \<open>0x07\<close>. This holds for every integer
  attribute, so for every 8-bit one.
\<close>

theorem convert_attribute_monochrome:
  "convert_attribute True a = a
   \<and> (if a AND 0x70 = 0
       then convert_attribute False a = a OR 0x07
          \<and> convert_attribute False a AND 0x07 = 0x07
          \<and> convert_attribute False a AND 0x70 = 0
       else convert_attribute False a = (a OR 0x70) AND 0xF8
          \<and> convert_attribute False a AND 0x70 = 0x70
          \<and> convert_attribute False a AND 0x07 = 0)
   \<and> convert_attribute False a AND 0x88 = a AND 0x88
   \<and> convert_attribute False 0x20 = 0x70
   \<and> convert_attribute False 0x00 = 0x07"
  by (simp add: convert_attribute_def WHITE_def REV_BLACK_def REV_WHITE_def
      or_white_foreground or_white_effects or_white_background
      reverse_video_background reverse_video_foreground reverse_video_effects)

theorem convert_attribute_monochrome_witness:
  "convert_attribute True 0x9C = 0x9C \<and> convert_attribute False 0x9C = 0xF8
   \<and> convert_attribute False 0x8A = 0x8F"
proof -
  have "(0x9C::int) AND 0x70 = 0x10" "(0x8A::int) AND 0x70 = 0" by simp_all
  with convert_attribute_monochrome [of "0x9C"] convert_attribute_monochrome [of "0x8A"]
  show ?thesis by simp
qed

section \<open>Box drawing characters\<close>

text \<open>
  C8. The claim asks that the lookup be in bounds for all eight enumerators. The table
  \<open>box_definitions\<close> has seven rows and \<open>NO_BORDER\<close> has the value 7: without
  \<^verbatim>\<open>SCR_ASCIIBOXES\<close> the pointer returned for \<open>NO_BORDER\<close> is one past the last row.
\<close>

theorem get_box_characters_no_border_out_of_bounds:
  "length box_definitions = 7 \<and> box_ordinal NO_BORDER = 7
   \<and> get_box_characters False NO_BORDER = None"
  by (simp add: get_box_characters_def box_definitions_at_def box_definitions_def)

text \<open>
  For the seven other styles the lookup is in bounds and returns the row of the style.
\<close>

lemma get_box_characters_in_bounds:
  "the_type \<noteq> NO_BORDER \<Longrightarrow>
   get_box_characters False the_type = Some (box_definitions ! box_ordinal the_type)"
  by (cases the_type)
    (simp_all add: get_box_characters_def box_definitions_at_def box_definitions_def)

lemma get_box_characters_in_bounds_witness:
  "get_box_characters False BLANK_BOX = Some (mk_box [32, 32, 32, 32, 32, 32, 32, 32, 32, 32, 32])"
  using get_box_characters_in_bounds [of BLANK_BOX] by (simp add: box_definitions_def)

text \<open>The single-line glyphs, and the coercion to the ASCII set in ASCII-only mode.\<close>

lemma get_box_characters_single_line:
  "\<exists>b. get_box_characters False SINGLE_LINE = Some b
     \<and> horizontal b = 196 \<and> vertical b = 179 \<and> upper_left b = 218"
  by (simp add: get_box_characters_def box_definitions_at_def box_definitions_def mk_box_def)

lemma get_box_characters_ascii_only:
  "the_type \<noteq> BLANK_BOX \<Longrightarrow>
   get_box_characters True the_type = get_box_characters False ASCII
   \<and> get_box_characters False ASCII \<noteq> None"
  by (simp add: get_box_characters_def box_definitions_at_def box_definitions_def)

lemma get_box_characters_ascii_only_witness:
  "get_box_characters True NO_BORDER = get_box_characters False ASCII
   \<and> get_box_characters True DOUBLE_LINE = get_box_characters False ASCII"
  using get_box_characters_ascii_only [of NO_BORDER]
    get_box_characters_ascii_only [of DOUBLE_LINE] by simp

section \<open>The lifecycle\<close>

lemma poke_Some:
  "0 \<le> p \<Longrightarrow> p < int (length mem) \<Longrightarrow> poke mem p v = Some (mem[nat p := v])"
  by (simp add: poke_def)

lemma poke_length: "poke mem p v = Some mem' \<Longrightarrow> length mem' = length mem"
  by (auto simp add: poke_def split: if_splits)

lemma clear_screen_loop_succeeds:
  assumes "0 \<le> counter" and "even (bound - counter)"
    and "bound \<le> int (length img)" and "bound \<le> int (length physical)"
  shows "\<exists>img' physical'. clear_screen_loop img physical counter bound = Some (img', physical')
    \<and> length img' = length img \<and> length physical' = length physical"
  using assms
proof (induction img physical counter bound rule: clear_screen_loop.induct)
  case (1 img physical counter bound)
  show ?case
  proof (cases "counter < bound")
    case False
    then show ?thesis by (simp add: clear_screen_loop.simps)
  next
    case True
    with "1.prems" have lt: "counter + 1 < bound" by presburger
    let ?w = "to_char (WHITE OR REV_BLACK)"
    let ?i2 = "img[nat counter := 32, nat (counter + 1) := ?w]"
    let ?p2 = "physical[nat counter := 32, nat (counter + 1) := ?w]"
    have p1: "poke img counter 32 = Some (img[nat counter := 32])"
      using "1.prems" lt by (simp add: poke_def)
    have p2: "poke (img[nat counter := 32]) (counter + 1) ?w = Some ?i2"
      using "1.prems" lt by (simp add: poke_def)
    have p3: "poke physical counter 32 = Some (physical[nat counter := 32])"
      using "1.prems" lt by (simp add: poke_def)
    have p4: "poke (physical[nat counter := 32]) (counter + 1) ?w = Some ?p2"
      using "1.prems" lt by (simp add: poke_def)
    have "\<exists>img' physical'. clear_screen_loop ?i2 ?p2 (counter + 2) bound = Some (img', physical')
      \<and> length img' = length ?i2 \<and> length physical' = length ?p2"
      using "1.prems" True by (intro "1.IH" [OF True p1 p2 p3 p4]) auto
    then show ?thesis
      using True p1 p2 p3 p4 by (subst clear_screen_loop.simps) auto
  qed
qed

lemma blank_loop_succeeds:
  assumes "0 \<le> counter" and "even (bound - counter)" and "bound \<le> int (length img)"
  shows "\<exists>img'. blank_loop img counter bound = Some img' \<and> length img' = length img"
  using assms
proof (induction img counter bound rule: blank_loop.induct)
  case (1 img counter bound)
  show ?case
  proof (cases "counter < bound")
    case False
    then show ?thesis by (simp add: blank_loop.simps)
  next
    case True
    with "1.prems" have lt: "counter + 1 < bound" by presburger
    let ?w = "to_char (WHITE OR REV_BLACK)"
    let ?i2 = "img[nat counter := 32, nat (counter + 1) := ?w]"
    have p1: "poke img counter 32 = Some (img[nat counter := 32])"
      using "1.prems" lt by (simp add: poke_def)
    have p2: "poke (img[nat counter := 32]) (counter + 1) ?w = Some ?i2"
      using "1.prems" lt by (simp add: poke_def)
    have "\<exists>img'. blank_loop ?i2 (counter + 2) bound = Some img' \<and> length img' = length ?i2"
      using "1.prems" True by (intro "1.IH" [OF True p1 p2]) auto
    then show ?thesis
      using True p1 p2 by (subst blank_loop.simps) auto
  qed
qed

lemma redraw_columns_succeeds:
  assumes "0 \<le> current_character"
    and "current_character + 2 * (columns + 1 - column_count) \<le> int (length img)"
  shows "\<exists>out'. redraw_columns img current_character column_count columns out = Some out'"
  using assms
proof (induction img current_character column_count columns out rule: redraw_columns.induct)
  case (1 img current_character column_count columns out)
  show ?case
  proof (cases "column_count \<le> columns")
    case False
    then show ?thesis by (simp add: redraw_columns.simps)
  next
    case True
    have p1: "peek img current_character = Some (img ! nat current_character)"
      using "1.prems" True by (simp add: peek_def)
    have p2: "peek img (current_character + 1) = Some (img ! nat (current_character + 1))"
      using "1.prems" True by (simp add: peek_def)
    have "\<exists>out'. redraw_columns img (current_character + 2) (column_count + 1) columns
        (out @ [Addch (img ! nat current_character) (img ! nat (current_character + 1))]) = Some out'"
      using "1.prems" True by (intro "1.IH" [OF True p1 p2]) auto
    then show ?thesis
      using True p1 p2 by (subst redraw_columns.simps) auto
  qed
qed

lemma redraw_rows_succeeds:
  assumes "1 \<le> row_count" and "0 \<le> columns" and "rows * 2 * columns \<le> int (length img)"
  shows "\<exists>out'. redraw_rows img row_count rows columns out = Some out'"
  using assms
proof (induction img row_count rows columns out rule: redraw_rows.induct)
  case (1 img row_count rows columns out)
  show ?case
  proof (cases "row_count \<le> rows")
    case False
    then show ?thesis by (simp add: redraw_rows.simps)
  next
    case True
    have "row_count * (2 * columns) \<le> rows * (2 * columns)"
      using True "1.prems" by (intro mult_right_mono) auto
    then have b: "(row_count - 1) * 2 * columns + 2 * columns \<le> int (length img)"
      using "1.prems" by (simp add: algebra_simps)
    have nn: "0 \<le> (row_count - 1) * 2 * columns"
      using "1.prems" by simp
    obtain out1 where o1: "redraw_columns img ((row_count - 1) * 2 * columns) 1 columns
        (out @ [Move (row_count - 1) 0]) = Some out1"
      using redraw_columns_succeeds [OF nn, of columns 1 img] b by auto
    have "\<exists>out'. redraw_rows img (row_count + 1) rows columns out1 = Some out'"
      using "1.prems" True by (intro "1.IH" [OF True o1]) auto
    then show ?thesis
      using True o1 by (subst redraw_rows.simps) auto
  qed
qed

lemma allocatedE:
  assumes "allocated s"
  obtains img physical where "screen_image s = Some img" "physical_image s = Some physical"
    "int (length img) = total_rows s * 2 * total_columns s"
    "int (length physical) = total_rows s * 2 * total_columns s"
    "0 \<le> total_rows s" "0 \<le> total_columns s"
  using assms by (auto simp add: allocated_def split: option.splits)

lemma clear_screen_succeeds:
  assumes "allocated s"
  shows "\<exists>s'. clear_screen s = Some s' \<and> allocated s'
    \<and> initialize_counter s' = initialize_counter s \<and> heap_log s' = heap_log s"
proof -
  from assms obtain img physical where a: "screen_image s = Some img"
    "physical_image s = Some physical"
    "int (length img) = total_rows s * 2 * total_columns s"
    "int (length physical) = total_rows s * 2 * total_columns s"
    "0 \<le> total_rows s" "0 \<le> total_columns s"
    by (rule allocatedE)
  have "even (total_rows s * 2 * total_columns s - 0)" by simp
  from clear_screen_loop_succeeds [OF _ this, of img physical] a
  obtain img' physical' where l:
    "clear_screen_loop img physical 0 (total_rows s * 2 * total_columns s) = Some (img', physical')"
    "length img' = length img" "length physical' = length physical"
    by auto
  show ?thesis
    using a l by (simp add: clear_screen_def allocated_def)
qed

lemma initialize_nested:
  "0 < initialize_counter s \<Longrightarrow>
   initialize lines cols ok s = Some (s\<lparr>initialize_counter := initialize_counter s + 1\<rparr>)"
  by (simp add: initialize_def)

lemma initialize_first:
  assumes "initialize_counter s = 0"
  shows "\<exists>s'. initialize lines cols ok s = Some s' \<and> allocated s'
    \<and> initialize_counter s' = 1
    \<and> heap_log s' = heap_log s @ [New_screen_image, New_physical_image]"
proof -
  let ?s2 = "s\<lparr>terminal := terminal s @ [Initialize_key, Initscr],
                     color_works := ok,
                     total_rows := int lines, max_rows := int lines,
                     total_columns := int cols, max_columns := int cols,
                screen_image := Some (replicate (lines * 2 * cols) 0),
                      physical_image := Some (replicate (lines * 2 * cols) 0),
                      heap_log := heap_log s @ [New_screen_image, New_physical_image]\<rparr>"
  have "allocated ?s2" by (simp add: allocated_def)
  from clear_screen_succeeds [OF this] obtain s3 where
    "clear_screen ?s2 = Some s3" "allocated s3" "initialize_counter s3 = initialize_counter ?s2"
    "heap_log s3 = heap_log ?s2" by blast
  then show ?thesis
    using assms by (auto simp add: initialize_def Let_def allocated_def split: option.splits)
qed

lemma terminate_inactive: "initialize_counter s = 0 \<Longrightarrow> terminate s = Some s"
  by (simp add: terminate_def)

lemma terminate_nested:
  "initialize_counter s \<noteq> 0 \<Longrightarrow> initialize_counter s \<noteq> 1 \<Longrightarrow>
   terminate s = Some (s\<lparr>initialize_counter := initialize_counter s - 1\<rparr>)"
  by (simp add: terminate_def Let_def)

lemma redraw_succeeds:
  assumes "screen_image s = Some img" and "int (length img) = total_rows s * 2 * total_columns s"
    and "0 \<le> total_columns s"
  shows "\<exists>out. redraw s = Some (s\<lparr>terminal := out\<rparr>)"
proof -
  from redraw_rows_succeeds [of 1 "total_columns s" "total_rows s" img "terminal s"] assms
  obtain out where "redraw_rows img 1 (total_rows s) (total_columns s) (terminal s) = Some out"
    by auto
  with assms show ?thesis by (simp add: redraw_def) blast
qed

lemma terminate_last:
  assumes "initialize_counter s = 1" and "allocated s"
  shows "\<exists>s'. terminate s = Some s' \<and> initialize_counter s' = 0
    \<and> screen_image s' = None \<and> physical_image s' = None
    \<and> heap_log s' = heap_log s @ [Delete_screen_image, Delete_physical_image]"
proof -
  from assms(2) obtain img physical where a: "screen_image s = Some img"
    "physical_image s = Some physical"
    "int (length img) = total_rows s * 2 * total_columns s"
    "int (length physical) = total_rows s * 2 * total_columns s"
    "0 \<le> total_rows s" "0 \<le> total_columns s"
    by (rule allocatedE)
  have "even (total_rows s * 2 * total_columns s - 0)" by simp
  from blank_loop_succeeds [OF _ this, of img] a
  obtain img' where b: "blank_loop img 0 (total_rows s * 2 * total_columns s) = Some img'"
    "length img' = length img" by auto
  let ?s1 = "s\<lparr>initialize_counter := initialize_counter s - 1, screen_image := Some img', virtual_row := 1,
                                virtual_column := 1\<rparr>"
  from redraw_succeeds [of ?s1 img'] a b
  obtain out where r: "redraw ?s1 = Some (?s1\<lparr>terminal := out\<rparr>)" by auto
  show ?thesis
    using assms(1) a b r by (simp add: terminate_def Let_def)
qed

text \<open>
  C9. From a state whose initialization counter is 0 (Inactive), whatever geometry
  curses reports: \<open>initialize; initialize; terminate\<close> all return and leave the counter
  at 1 with both images allocated, nothing freed so far; a second \<open>terminate\<close> returns
  with the counter at 0, both image pointers null and each image freed once (the heap
  log has gained exactly one \<^verbatim>\<open>new[]\<close> and one \<^verbatim>\<open>delete[]\<close> per image); and
  \<open>terminate\<close> in an Inactive state returns the state unchanged.
\<close>

theorem lifecycle_counter:
  assumes "initialize_counter s0 = 0"
  shows "\<exists>s1 s2 s3 s4.
      initialize lines cols ok s0 = Some s1 \<and> initialize lines' cols' ok' s1 = Some s2
    \<and> terminate s2 = Some s3 \<and> terminate s3 = Some s4
    \<and> initialize_counter s3 = 1 \<and> screen_image s3 \<noteq> None \<and> physical_image s3 \<noteq> None
    \<and> heap_log s3 = heap_log s0 @ [New_screen_image, New_physical_image]
    \<and> initialize_counter s4 = 0 \<and> screen_image s4 = None \<and> physical_image s4 = None
    \<and> heap_log s4 = heap_log s0 @ [New_screen_image, New_physical_image,
          Delete_screen_image, Delete_physical_image]
    \<and> terminate s4 = Some s4 \<and> terminate s0 = Some s0"
proof -
  from initialize_first [OF assms, of lines cols ok] obtain s1 where
    s1: "initialize lines cols ok s0 = Some s1" "allocated s1" "initialize_counter s1 = 1"
      "heap_log s1 = heap_log s0 @ [New_screen_image, New_physical_image]" by blast
  let ?s2 = "s1\<lparr>initialize_counter := initialize_counter s1 + 1\<rparr>"
  have s2: "initialize lines' cols' ok' s1 = Some ?s2"
    using s1 by (simp add: initialize_nested)
  have s3: "terminate ?s2 = Some s1"
    using s1 by (simp add: terminate_nested)
  from terminate_last [OF s1(3) s1(2)] obtain s4 where
    s4: "terminate s1 = Some s4" "initialize_counter s4 = 0" "screen_image s4 = None"
      "physical_image s4 = None"
      "heap_log s4 = heap_log s1 @ [Delete_screen_image, Delete_physical_image]" by blast
  have "screen_image s1 \<noteq> None" "physical_image s1 \<noteq> None"
    using s1(2) by (auto elim: allocatedE)
  with s1 s2 s3 s4 assms show ?thesis
    by (simp add: terminate_inactive)
qed

theorem lifecycle_counter_witness:
  "initialize_counter static_scr = 0
   \<and> (\<exists>s1 s2 s3 s4.
      initialize 24 80 True static_scr = Some s1 \<and> initialize 50 132 False s1 = Some s2
    \<and> terminate s2 = Some s3 \<and> terminate s3 = Some s4
    \<and> initialize_counter s3 = 1 \<and> screen_image s3 \<noteq> None \<and> physical_image s3 \<noteq> None
    \<and> initialize_counter s4 = 0 \<and> screen_image s4 = None \<and> physical_image s4 = None
    \<and> heap_log s4 = [New_screen_image, New_physical_image,
          Delete_screen_image, Delete_physical_image]
    \<and> terminate s4 = Some s4)"
proof -
  have c: "initialize_counter static_scr = 0" by (simp add: static_scr_def)
  have h: "heap_log static_scr = []" by (simp add: static_scr_def)
  from lifecycle_counter [OF c, of 24 80 True 50 132 False] h c show ?thesis
    by auto
qed

section \<open>refresh brings the physical image up to date\<close>

lemma take_two_more:
  assumes "n + 1 < length xs" and "length ys = length xs" and "take n xs = take n ys"
    and "xs ! n = ys ! n" and "xs ! (n + 1) = ys ! (n + 1)"
  shows "take (n + 2) xs = take (n + 2) ys"
proof -
  have "take (Suc (Suc n)) xs = take n xs @ [xs ! n, xs ! Suc n]"
    using assms by (simp add: take_Suc_conv_app_nth)
  moreover have "take (Suc (Suc n)) ys = take n ys @ [ys ! n, ys ! Suc n]"
    using assms by (simp add: take_Suc_conv_app_nth)
  ultimately show ?thesis using assms by simp
qed

lemma refresh_cell_prefix:
  assumes idx: "idx = (row_count - 1) * 2 * columns + 2 * (column_count - 1)"
    and "0 \<le> idx" and "idx + 1 < int (length img)" and "length physical = length img"
    and "take (nat idx) physical = take (nat idx) img"
  shows "\<exists>physical' r c out'.
      refresh_cell img columns row_count column_count (physical, p_row, p_column, out)
        = Some (physical', r, c, out')
    \<and> length physical' = length img
    \<and> take (nat (idx + 2)) physical' = take (nat (idx + 2)) img"
proof -
  let ?n = "nat idx"
  have n: "?n + 1 < length img" "nat (idx + 1) = ?n + 1" "nat (idx + 2) = ?n + 2"
    using assms by auto
  have pk: "peek img idx = Some (img ! ?n)" "peek physical idx = Some (physical ! ?n)"
    "peek img (idx + 1) = Some (img ! (?n + 1))"
    "peek physical (idx + 1) = Some (physical ! (?n + 1))"
    using assms n by (simp_all add: peek_def)
  show ?thesis
  proof (cases "img ! ?n = physical ! ?n \<and> img ! (?n + 1) = physical ! (?n + 1)")
    case True
    then have "take (?n + 2) physical = take (?n + 2) img"
      using assms n by (intro take_two_more) auto
    with True pk assms n show ?thesis
      by (simp add: refresh_cell_def idx [symmetric])
  next
    case False
    let ?p = "physical[?n := img ! ?n, ?n + 1 := img ! (?n + 1)]"
    have po: "poke physical idx (img ! ?n) = Some (physical[?n := img ! ?n])"
      "poke (physical[?n := img ! ?n]) (idx + 1) (img ! (?n + 1)) = Some ?p"
      using assms n by (simp_all add: poke_def)
    have "take (?n + 2) ?p = take (?n + 2) img"
      using assms n by (intro take_two_more) auto
    with False pk po assms n show ?thesis
      by (auto simp add: refresh_cell_def idx [symmetric] Let_def split: prod.splits)
  qed
qed

lemma refresh_columns_prefix:
  assumes "1 \<le> column_count" and "column_count \<le> columns + 1"
    and "0 \<le> (row_count - 1) * 2 * columns"
    and "(row_count - 1) * 2 * columns + 2 * columns \<le> int (length img)"
    and "length physical = length img"
    and "take (nat ((row_count - 1) * 2 * columns + 2 * (column_count - 1))) physical
       = take (nat ((row_count - 1) * 2 * columns + 2 * (column_count - 1))) img"
  shows "\<exists>physical' r c out'.
      refresh_columns img columns row_count column_count (physical, p_row, p_column, out)
        = Some (physical', r, c, out')
    \<and> length physical' = length img
    \<and> take (nat ((row_count - 1) * 2 * columns + 2 * columns)) physical'
      = take (nat ((row_count - 1) * 2 * columns + 2 * columns)) img"
  using assms
proof (induction img columns row_count column_count "(physical, p_row, p_column, out)"
    arbitrary: physical p_row p_column out rule: refresh_columns.induct)
  case (1 img columns row_count column_count)
  let ?idx = "(row_count - 1) * 2 * columns + 2 * (column_count - 1)"
  show ?case
  proof (cases "column_count \<le> columns")
    case False
    with "1.prems" have "column_count = columns + 1" by simp
    with "1.prems" show ?thesis
      by (subst refresh_columns.simps) simp
  next
    case True
    have "0 \<le> ?idx" "?idx + 1 < int (length img)"
      using "1.prems" True by auto
    from refresh_cell_prefix [OF refl this "1.prems"(5,6), of p_row p_column out]
    obtain physical1 r1 c1 out1 where
      c: "refresh_cell img columns row_count column_count (physical, p_row, p_column, out)
        = Some (physical1, r1, c1, out1)" "length physical1 = length img"
        "take (nat (?idx + 2)) physical1 = take (nat (?idx + 2)) img"
      by blast
    have e: "?idx + 2 = (row_count - 1) * 2 * columns + 2 * (column_count + 1 - 1)"
      by simp
    have "\<exists>physical' r c out'.
      refresh_columns img columns row_count (column_count + 1) (physical1, r1, c1, out1)
        = Some (physical', r, c, out')
      \<and> length physical' = length img
      \<and> take (nat ((row_count - 1) * 2 * columns + 2 * columns)) physical'
        = take (nat ((row_count - 1) * 2 * columns + 2 * columns)) img"
      using "1.prems" True c(2) c(3) [unfolded e]
      by (intro "1.hyps" [OF True c(1)]) auto
    then show ?thesis
      using True c(1) by (subst refresh_columns.simps) simp
  qed
qed

lemma refresh_rows_equal:
  assumes "1 \<le> row_count" and "row_count \<le> rows + 1" and "0 \<le> columns"
    and "int (length img) = rows * 2 * columns"
    and "length physical = length img"
    and "take (nat ((row_count - 1) * 2 * columns)) physical
       = take (nat ((row_count - 1) * 2 * columns)) img"
  shows "\<exists>r c out'.
      refresh_rows img rows columns row_count (physical, p_row, p_column, out)
        = Some (img, r, c, out')"
  using assms
proof (induction img rows columns row_count "(physical, p_row, p_column, out)"
    arbitrary: physical p_row p_column out rule: refresh_rows.induct)
  case (1 img rows columns row_count)
  show ?case
  proof (cases "row_count \<le> rows")
    case False
    with "1.prems" have "row_count = rows + 1" by simp
    with "1.prems" have "take (length img) physical = take (length img) img"
      by simp
    with "1.prems" have "physical = img" by simp
    with False show ?thesis
      by (subst refresh_rows.simps) simp
  next
    case True
    have nn: "0 \<le> (row_count - 1) * 2 * columns"
      using "1.prems" by simp
    have "row_count * (2 * columns) \<le> rows * (2 * columns)"
      using True "1.prems" by (intro mult_right_mono) auto
    then have b: "(row_count - 1) * 2 * columns + 2 * columns \<le> int (length img)"
      using "1.prems" by (simp add: algebra_simps)
    from refresh_columns_prefix [of 1 columns row_count img physical p_row p_column out]
      nn b "1.prems"
    obtain physical1 r1 c1 out1 where
      c: "refresh_columns img columns row_count 1 (physical, p_row, p_column, out)
        = Some (physical1, r1, c1, out1)" "length physical1 = length img"
        "take (nat ((row_count - 1) * 2 * columns + 2 * columns)) physical1
          = take (nat ((row_count - 1) * 2 * columns + 2 * columns)) img"
      by auto
    have e: "(row_count - 1) * 2 * columns + 2 * columns = (row_count + 1 - 1) * 2 * columns"
      by (simp add: algebra_simps)
    have "\<exists>r c out'.
      refresh_rows img rows columns (row_count + 1) (physical1, r1, c1, out1)
        = Some (img, r, c, out')"
      using "1.prems" True c(2) c(3) [unfolded e]
      by (intro "1.hyps" [OF True c(1)]) auto
    then show ?thesis
      using True c(1) by (subst refresh_rows.simps) simp
  qed
qed

lemma refresh_synchronizes:
  assumes "allocated s"
  shows "\<exists>s'. refresh s = Some s' \<and> physical_image s' = screen_image s
    \<and> screen_image s' = screen_image s \<and> allocated s'"
proof -
  from assms obtain img physical where a: "screen_image s = Some img"
    "physical_image s = Some physical"
    "int (length img) = total_rows s * 2 * total_columns s"
    "int (length physical) = total_rows s * 2 * total_columns s"
    "0 \<le> total_rows s" "0 \<le> total_columns s"
    by (rule allocatedE)
  from refresh_rows_equal [of 1 "total_rows s" "total_columns s" img physical
      "physical_row s" "physical_column s" "terminal s"] a
  obtain r c out' where "refresh_rows img (total_rows s) (total_columns s) 1
      (physical, physical_row s, physical_column s, terminal s) = Some (img, r, c, out')"
    by auto
  with a show ?thesis
    by (simp add: refresh_def allocated_def)
qed

section \<open>Memory accesses and screen offsets\<close>

lemma peek_in_bounds:
  "0 \<le> p \<Longrightarrow> p < int (length mem) \<Longrightarrow> peek mem p = Some (byte_at mem p)"
  by (simp add: peek_def byte_at_def)

lemma poke_in_bounds:
  "0 \<le> p \<Longrightarrow> p < int (length mem) \<Longrightarrow> poke mem p v = Some (mem[nat p := v])"
  by (simp add: poke_def)

lemma byte_at_update:
  "0 \<le> p \<Longrightarrow> p < int (length mem) \<Longrightarrow> 0 \<le> y \<Longrightarrow>
   byte_at (mem[nat p := v]) y = (if y = p then v else byte_at mem y)"
  by (auto simp add: byte_at_def nth_list_update)

lemma nth_overwrite:
  assumes "d + n \<le> length dst" and "s + n \<le> length src" and "y < length dst"
  shows "(take d dst @ take n (drop s src) @ drop (d + n) dst) ! y
    = (if d \<le> y \<and> y < d + n then src ! (s + (y - d)) else dst ! y)"
proof -
  have l: "length (take n (drop s src)) = n" "length (take d dst) = d"
    using assms by auto
  consider "y < d" | "d \<le> y" "y < d + n" | "d + n \<le> y" by linarith
  then show ?thesis
  proof cases
    case 1
    then show ?thesis using assms by (simp add: nth_append)
  next
    case 2
    then have "(take d dst @ take n (drop s src) @ drop (d + n) dst) ! y
      = (take n (drop s src) @ drop (d + n) dst) ! (y - d)"
      using l by (simp add: nth_append)
    also have "\<dots> = take n (drop s src) ! (y - d)"
    proof -
      have "y - d < n" using 2 by auto
      then show ?thesis using l by (simp add: nth_append)
    qed
    also have "\<dots> = src ! (s + (y - d))"
    proof -
      have "y - d < n" "s + (y - d) \<le> length src" using 2 assms by auto
      then show ?thesis by simp
    qed
    finally show ?thesis using 2 by simp
  next
    case 3
    then have "(take d dst @ take n (drop s src) @ drop (d + n) dst) ! y
      = (take n (drop s src) @ drop (d + n) dst) ! (y - d)"
      using l by (simp add: nth_append)
    also have "\<dots> = drop (d + n) dst ! (y - d - n)"
      using 3 l by (simp add: nth_append)
    also have "\<dots> = dst ! y"
      using 3 assms by simp
    finally show ?thesis using 3 by simp
  qed
qed

lemma memcpy_in_bounds:
  assumes "0 \<le> d" and "d + int n \<le> int (length dst)" and "0 \<le> s"
    and "s + int n \<le> int (length src)"
  shows "\<exists>dst'. memcpy dst d src s n = Some dst' \<and> length dst' = length dst
    \<and> (\<forall>y. 0 \<le> y \<and> y < int (length dst) \<longrightarrow>
          byte_at dst' y = (if d \<le> y \<and> y < d + int n then byte_at src (s + (y - d))
                            else byte_at dst y))"
proof -
  let ?r = "take (nat d) dst @ take n (drop (nat s) src) @ drop (nat d + n) dst"
  have m: "memcpy dst d src s n = Some ?r"
    using assms by (simp add: memcpy_def)
  have l: "length ?r = length dst"
    using assms by auto
  have "byte_at ?r y = (if d \<le> y \<and> y < d + int n then byte_at src (s + (y - d))
                            else byte_at dst y)" if y: "0 \<le> y" "y < int (length dst)" for y
  proof -
    have b: "nat d + n \<le> length dst" "nat s + n \<le> length src" "nat y < length dst"
      using assms y by auto
    have c: "(nat d \<le> nat y \<and> nat y < nat d + n) = (d \<le> y \<and> y < d + int n)"
      using assms y by auto
    have e: "d \<le> y \<Longrightarrow> nat s + (nat y - nat d) = nat (s + (y - d))"
      using assms y by auto
    show ?thesis
    proof (cases "d \<le> y \<and> y < d + int n")
      case True
      then have "?r ! nat y = src ! (nat s + (nat y - nat d))"
        unfolding nth_overwrite [OF b] c by simp
      also have "\<dots> = src ! nat (s + (y - d))"
        using True by (subst e) simp_all
      finally show ?thesis using True by (simp add: byte_at_def)
    next
      case False
      then have "?r ! nat y = dst ! nat y"
        unfolding nth_overwrite [OF b] c by auto
      then show ?thesis using False by (auto simp add: byte_at_def)
    qed
  qed
  with m l show ?thesis by blast
qed

subsection \<open>Arithmetic of screen offsets\<close>

lemma rows_apart:
  fixes a b S :: int
  assumes "a < b" and "0 \<le> S"
  shows "a * S + S \<le> b * S"
proof -
  have "(a + 1) * S \<le> b * S" using assms by (intro mult_right_mono) auto
  then show ?thesis by (simp add: algebra_simps)
qed

lemma rows_ordered:
  fixes a b S :: int
  assumes "a \<le> b" and "0 \<le> S"
  shows "a * S \<le> b * S"
  using assms by (rule mult_right_mono)

lemma screen_offset_row:
  "screen_offset columns (r + k) (c + j) = screen_offset columns r c + k * (2 * columns) + 2 * j"
  by (simp add: screen_offset_def algebra_simps)

text \<open>
  A byte of the cell at \<open>(r', c')\<close> lies among the bytes of the \<open>n\<close> cells that start
  at \<open>(r, c)\<close> in row \<open>r\<close> exactly when \<open>(r', c')\<close> is one of these cells.
\<close>

lemma cell_in_row_span:
  assumes "1 \<le> c'" and "c' \<le> columns" and "1 \<le> c" and "0 \<le> n" and "c + n - 1 \<le> columns"
    and "b = 0 \<or> b = 1"
  shows "(screen_offset columns r c \<le> screen_offset columns r' c' + b
      \<and> screen_offset columns r' c' + b < screen_offset columns r c + 2 * n)
    \<longleftrightarrow> (r' = r \<and> c \<le> c' \<and> c' < c + n)"
proof -
  have S: "0 \<le> 2 * columns" using assms by simp
  consider "r' < r" | "r' = r" | "r < r'" by linarith
  then show ?thesis
  proof cases
    case 1
    then have "(r' - 1) * (2 * columns) + 2 * columns \<le> (r - 1) * (2 * columns)"
      using S by (intro rows_apart) auto
    with 1 assms show ?thesis by (auto simp add: screen_offset_def algebra_simps)
  next
    case 2
    with assms show ?thesis by (auto simp add: screen_offset_def)
  next
    case 3
    then have "(r - 1) * (2 * columns) + 2 * columns \<le> (r' - 1) * (2 * columns)"
      using S by (intro rows_apart) auto
    with 3 assms show ?thesis by (auto simp add: screen_offset_def algebra_simps)
  qed
qed

text \<open>The bytes of a cell of the screen lie inside the image.\<close>

lemma cell_in_image:
  assumes "1 \<le> r" and "r \<le> rows" and "1 \<le> c" and "c \<le> columns"
  shows "0 \<le> screen_offset columns r c \<and> screen_offset columns r c + 1 < rows * 2 * columns"
proof -
  define X where "X = (r - 1) * (2 * columns)"
  define T where "T = rows * (2 * columns)"
  have e: "screen_offset columns r c = X + 2 * (c - 1)"
    by (simp add: screen_offset_def X_def)
  have f: "rows * 2 * columns = T" by (simp add: T_def)
  have A: "X + 2 * columns \<le> T"
    unfolding X_def T_def using assms by (intro rows_apart) auto
  have "0 * (2 * columns) \<le> X"
    unfolding X_def using assms by (intro rows_ordered) auto
  then have B: "0 \<le> X" by simp
  have "0 \<le> X + 2 * (c - 1)"
    using B assms by arith
  moreover have "X + 2 * (c - 1) + 1 < T"
    using A assms by arith
  ultimately show ?thesis unfolding e f by (rule conjI)
qed

section \<open>print and print_text\<close>

lemma active_session_geometry:
  assumes "active_session s"
  shows "1 \<le> total_rows s" and "total_rows s < INT_MAX"
    and "1 \<le> total_columns s" and "total_columns s < INT_MAX"
proof -
  define T where "T = total_rows s * (2 * total_columns s)"
  from assms show g: "1 \<le> total_rows s" "1 \<le> total_columns s"
    by (simp_all add: active_session_def)
  from assms have "total_rows s * 2 * total_columns s < 2 ^ 31"
    by (simp add: active_session_def)
  then have b: "T < 2147483648" by (simp add: T_def mult.assoc)
  have "1 * (2 * total_columns s) \<le> T"
    unfolding T_def using g by (intro mult_right_mono) auto
  with b show "total_columns s < INT_MAX" by (simp add: INT_MAX_def)
  have "total_rows s * 2 \<le> T"
    unfolding T_def using g by (intro mult_left_mono) auto
  with b show "total_rows s < INT_MAX" by (simp add: INT_MAX_def)
qed

lemma strlen_Cons:
  "strlen (ch # str) = (if ch = 0 then 0 else 1 + strlen str)"
  by (simp add: strlen_def)

lemma strlen_nonneg: "0 \<le> strlen str"
  by (simp add: strlen_def)

lemma strlen_vsnprintf:
  "strlen (vsnprintf formatted) = min (int maximum_print_size) (strlen formatted)"
proof -
  have "takeWhile (\<lambda>ch. ch \<noteq> 0) (take n formatted @ [0])
      = take n (takeWhile (\<lambda>ch. ch \<noteq> 0) formatted)" for n
    by (induction formatted arbitrary: n) (auto simp add: take_Cons split: nat.splits)
  then show ?thesis by (simp add: strlen_def vsnprintf_def min_def)
qed

lemma vsnprintf_nth:
  assumes "0 \<le> j" and "j < strlen (vsnprintf formatted)"
  shows "vsnprintf formatted ! nat j = formatted ! nat j"
proof -
  have "length (takeWhile (\<lambda>ch. ch \<noteq> 0) formatted) \<le> length formatted"
    by (rule length_takeWhile_le)
  with assms have "nat j < length formatted" "nat j < maximum_print_size"
    unfolding strlen_vsnprintf by (auto simp add: strlen_def)
  then show ?thesis by (simp add: vsnprintf_def nth_append)
qed

lemma print_cells_result:
  assumes "0 \<le> p" and "0 \<le> w" and "(0::byte) \<in> set str"
    and "p + 2 * min w (strlen str) \<le> int (length img)"
  shows "\<exists>img'. print_cells img p str w a = Some img' \<and> length img' = length img
    \<and> (\<forall>j. 0 \<le> j \<and> j < min w (strlen str) \<longrightarrow>
          byte_at img' (p + 2 * j) = str ! nat j \<and> byte_at img' (p + 2 * j + 1) = a)
    \<and> (\<forall>y. 0 \<le> y \<and> y < int (length img)
          \<and> (y < p \<or> p + 2 * min w (strlen str) \<le> y) \<longrightarrow> byte_at img' y = byte_at img y)"
  using assms
proof (induction str arbitrary: img p w)
  case Nil
  then show ?case by simp
next
  case (Cons ch str)
  show ?case
  proof (cases "ch \<noteq> 0 \<and> w \<noteq> 0")
    case False
    then have "min w (strlen (ch # str)) = 0"
      using Cons.prems strlen_nonneg [of str] by (auto simp add: strlen_Cons)
    with False show ?thesis by auto
  next
    case True
    then have m: "min w (strlen (ch # str)) = 1 + min (w - 1) (strlen str)"
      by (auto simp add: strlen_Cons)
    have m0: "0 \<le> min (w - 1) (strlen str)"
      using True Cons.prems strlen_nonneg [of str] by auto
    let ?i1 = "img[nat p := ch]"
    let ?i2 = "?i1[nat (p + 1) := a]"
    have b: "p + 1 < int (length img)"
      using Cons.prems(4) m m0 by arith
    have p1: "poke img p ch = Some ?i1"
      using Cons.prems b by (simp add: poke_in_bounds)
    have p2: "poke ?i1 (p + 1) a = Some ?i2"
      using Cons.prems b by (simp add: poke_in_bounds)
    have "\<exists>img'. print_cells ?i2 (p + 2) str (w - 1) a = Some img' \<and> length img' = length ?i2
      \<and> (\<forall>j. 0 \<le> j \<and> j < min (w - 1) (strlen str) \<longrightarrow>
            byte_at img' (p + 2 + 2 * j) = str ! nat j \<and> byte_at img' (p + 2 + 2 * j + 1) = a)
      \<and> (\<forall>y. 0 \<le> y \<and> y < int (length ?i2)
            \<and> (y < p + 2 \<or> p + 2 + 2 * min (w - 1) (strlen str) \<le> y)
            \<longrightarrow> byte_at img' y = byte_at ?i2 y)"
      using Cons.prems True m by (intro Cons.IH) auto
    then obtain img' where r: "print_cells ?i2 (p + 2) str (w - 1) a = Some img'"
      "length img' = length img"
      and cells: "\<And>j. 0 \<le> j \<Longrightarrow> j < min (w - 1) (strlen str) \<Longrightarrow>
            byte_at img' (p + 2 + 2 * j) = str ! nat j \<and> byte_at img' (p + 2 + 2 * j + 1) = a"
      and frame: "\<And>y. 0 \<le> y \<Longrightarrow> y < int (length img) \<Longrightarrow>
            y < p + 2 \<or> p + 2 + 2 * min (w - 1) (strlen str) \<le> y \<Longrightarrow>
            byte_at img' y = byte_at ?i2 y"
      by auto
    have i2: "byte_at ?i2 y = (if y = p + 1 then a else if y = p then ch else byte_at img y)"
      if "0 \<le> y" for y
      using that Cons.prems b by (simp add: byte_at_update)
    have run: "print_cells img p (ch # str) w a = Some img'"
      using True p1 p2 r by simp
    have c: "byte_at img' (p + 2 * j) = (ch # str) ! nat j \<and> byte_at img' (p + 2 * j + 1) = a"
      if j: "0 \<le> j" "j < min w (strlen (ch # str))" for j
    proof (cases "j = 0")
      case True
      then show ?thesis
        using frame [of p] frame [of "p + 1"] Cons.prems b by (simp add: i2)
    next
      case False
      then have j1: "0 \<le> j - 1" "j - 1 < min (w - 1) (strlen str)" "nat j = Suc (nat (j - 1))"
        using j m by auto
      have "p + 2 + 2 * (j - 1) = p + 2 * j" by simp
      with cells [OF j1(1,2)] j1(3) show ?thesis by simp
    qed
    have f: "byte_at img' y = byte_at img y"
      if y: "0 \<le> y" "y < int (length img)" "y < p \<or> p + 2 * min w (strlen (ch # str)) \<le> y"
      for y
    proof -
      have "y < p + 2 \<or> p + 2 + 2 * min (w - 1) (strlen str) \<le> y"
        using y m by auto
      from frame [OF y(1,2) this] have "byte_at img' y = byte_at ?i2 y" .
      also have "\<dots> = byte_at img y"
      proof -
        have "y \<noteq> p" "y \<noteq> p + 1" using y(3) m m0 by arith+
        then show ?thesis using y by (simp add: i2)
      qed
      finally show ?thesis .
    qed
    from run r(2) c f show ?thesis by blast
  qed
qed

lemma print_text_cells_result:
  assumes "0 \<le> p" and "0 \<le> w" and "(0::byte) \<in> set str"
    and "p + 2 * min w (strlen str) \<le> int (length img)"
  shows "\<exists>img'. print_text_cells img p str w = Some img' \<and> length img' = length img
    \<and> (\<forall>j. 0 \<le> j \<and> j < min w (strlen str) \<longrightarrow> byte_at img' (p + 2 * j) = str ! nat j)
    \<and> (\<forall>y. 0 \<le> y \<and> y < int (length img)
          \<and> (y < p \<or> p + 2 * min w (strlen str) \<le> y \<or> odd (y - p))
          \<longrightarrow> byte_at img' y = byte_at img y)"
  using assms
proof (induction str arbitrary: img p w)
  case Nil
  then show ?case by simp
next
  case (Cons ch str)
  show ?case
  proof (cases "ch \<noteq> 0 \<and> w \<noteq> 0")
    case False
    then have "min w (strlen (ch # str)) = 0"
      using Cons.prems strlen_nonneg [of str] by (auto simp add: strlen_Cons)
    with False show ?thesis by auto
  next
    case True
    then have m: "min w (strlen (ch # str)) = 1 + min (w - 1) (strlen str)"
      by (auto simp add: strlen_Cons)
    have m0: "0 \<le> min (w - 1) (strlen str)"
      using True Cons.prems strlen_nonneg [of str] by auto
    let ?i1 = "img[nat p := ch]"
    have b: "p + 1 < int (length img)"
      using Cons.prems(4) m m0 by arith
    have p1: "poke img p ch = Some ?i1"
      using Cons.prems b by (simp add: poke_in_bounds)
    have "\<exists>img'. print_text_cells ?i1 (p + 2) str (w - 1) = Some img'
      \<and> length img' = length ?i1
      \<and> (\<forall>j. 0 \<le> j \<and> j < min (w - 1) (strlen str) \<longrightarrow>
            byte_at img' (p + 2 + 2 * j) = str ! nat j)
      \<and> (\<forall>y. 0 \<le> y \<and> y < int (length ?i1)
            \<and> (y < p + 2 \<or> p + 2 + 2 * min (w - 1) (strlen str) \<le> y \<or> odd (y - (p + 2)))
            \<longrightarrow> byte_at img' y = byte_at ?i1 y)"
      using Cons.prems True m by (intro Cons.IH) auto
    then obtain img' where r: "print_text_cells ?i1 (p + 2) str (w - 1) = Some img'"
      "length img' = length img"
      and cells: "\<And>j. 0 \<le> j \<Longrightarrow> j < min (w - 1) (strlen str) \<Longrightarrow>
            byte_at img' (p + 2 + 2 * j) = str ! nat j"
      and frame: "\<And>y. 0 \<le> y \<Longrightarrow> y < int (length img) \<Longrightarrow>
            y < p + 2 \<or> p + 2 + 2 * min (w - 1) (strlen str) \<le> y \<or> odd (y - (p + 2)) \<Longrightarrow>
            byte_at img' y = byte_at ?i1 y"
      by auto
    have i1: "byte_at ?i1 y = (if y = p then ch else byte_at img y)" if "0 \<le> y" for y
      using that Cons.prems b by (simp add: byte_at_update)
    have run: "print_text_cells img p (ch # str) w = Some img'"
      using True p1 r by simp
    have c: "byte_at img' (p + 2 * j) = (ch # str) ! nat j"
      if j: "0 \<le> j" "j < min w (strlen (ch # str))" for j
    proof (cases "j = 0")
      case True
      then show ?thesis
        using frame [of p] Cons.prems b by (simp add: i1)
    next
      case False
      then have j1: "0 \<le> j - 1" "j - 1 < min (w - 1) (strlen str)" "nat j = Suc (nat (j - 1))"
        using j m by auto
      have "p + 2 + 2 * (j - 1) = p + 2 * j" by simp
      with cells [OF j1(1,2)] j1(3) show ?thesis by simp
    qed
    have f: "byte_at img' y = byte_at img y"
      if y: "0 \<le> y" "y < int (length img)"
        "y < p \<or> p + 2 * min w (strlen (ch # str)) \<le> y \<or> odd (y - p)"
      for y
    proof -
      have "y < p + 2 \<or> p + 2 + 2 * min (w - 1) (strlen str) \<le> y \<or> odd (y - (p + 2))"
        using y m by auto
      from frame [OF y(1,2) this] have "byte_at img' y = byte_at ?i1 y" .
      also have "\<dots> = byte_at img y"
      proof -
        have "y \<noteq> p" using y(3) m m0 by arith
        then show ?thesis using y by (simp add: i1)
      qed
      finally show ?thesis .
    qed
    from run r(2) c f show ?thesis by blast
  qed
qed

text \<open>The clamped width of a print fits the count, the terminator is in the buffer.\<close>

lemma size_t_to_int_le: "size_t_to_int n \<le> int n"
proof -
  let ?w = "word_of_nat n :: 32 word"
  have "- (2 ^ 31) \<le> (0::int)" by simp
  also have "0 \<le> uint ?w" by simp
  finally have "- (2 ^ 31) \<le> uint ?w" .
  then have "sint ?w \<le> uint ?w"
    by (simp add: sint_uint signed_take_bit_int_less_eq_self_iff)
  also have "uint ?w = int (take_bit 32 n)"
    by (simp add: unsigned_of_nat)
  also have "\<dots> \<le> int n"
    by (simp add: take_bit_nat_less_eq_self)
  finally show ?thesis by (simp add: size_t_to_int_def)
qed

lemma vsnprintf_terminated: "(0::byte) \<in> set (vsnprintf formatted)"
  by (simp add: vsnprintf_def)

lemma row_span_in_image:
  assumes "1 \<le> r" and "r \<le> rows" and "1 \<le> c" and "0 \<le> n" and "c + n - 1 \<le> columns"
  shows "0 \<le> screen_offset columns r c
    \<and> screen_offset columns r c + 2 * n \<le> rows * 2 * columns"
proof -
  define X where "X = (r - 1) * (2 * columns)"
  define T where "T = rows * (2 * columns)"
  have S: "0 \<le> 2 * columns" using assms by arith
  have e: "screen_offset columns r c = X + 2 * (c - 1)"
    by (simp add: screen_offset_def X_def)
  have f: "rows * 2 * columns = T" by (simp add: T_def)
  have A: "X + 2 * columns \<le> T"
    unfolding X_def T_def using assms S by (intro rows_apart) auto
  have "0 * (2 * columns) \<le> X"
    unfolding X_def using assms S by (intro rows_ordered) auto
  then have B: "0 \<le> X" by simp
  have "0 \<le> X + 2 * (c - 1)"
    using B assms by arith
  moreover have "X + 2 * (c - 1) + 2 * n \<le> T"
    using A assms by arith
  ultimately show ?thesis unfolding e f by (rule conjI)
qed

lemma print_cells_on_screen:
  assumes s: "active_session s" and img: "screen_image s = Some img"
    and adj: "adjust_dimensions (total_rows s) (total_columns s) row column
        (size_t_to_int count) 1 = (r, c, w, h)"
    and fit: "sums_in_int (total_rows s) (total_columns s) row column (size_t_to_int count) 1"
    and n: "n = min w (min 1024 (strlen formatted))"
  shows "\<exists>img'. print s row column count attribute formatted
        = Some (s\<lparr>screen_image := Some img'\<rparr>)
    \<and> length img' = length img
    \<and> (\<forall>r' c'. 1 \<le> r' \<and> r' \<le> total_rows s \<and> 1 \<le> c' \<and> c' \<le> total_columns s \<longrightarrow>
          (if r' = r \<and> c \<le> c' \<and> c' < c + n
           then char_at (total_columns s) img' r' c' = formatted ! nat (c' - c)
              \<and> attr_at (total_columns s) img' r' c'
                  = to_char (convert_attribute (color_works s) attribute)
           else char_at (total_columns s) img' r' c' = char_at (total_columns s) img r' c'
              \<and> attr_at (total_columns s) img' r' c' = attr_at (total_columns s) img r' c'))"
proof -
  let ?cols = "total_columns s" and ?rows = "total_rows s"
  let ?p = "screen_offset ?cols r c"
  let ?str = "vsnprintf formatted"
  let ?a = "to_char (convert_attribute (color_works s) attribute)"
  from s have g: "1 \<le> ?rows" "1 \<le> ?cols" and al: "allocated s"
    by (simp_all add: active_session_def)
  from al img have len: "int (length img) = ?rows * 2 * ?cols"
    by (auto elim: allocatedE)
  note b = adjust_dimensions_bounds [OF g adj fit]
  have n': "n = min w (strlen ?str)"
    by (simp add: n strlen_vsnprintf maximum_print_size_def)
  have n0: "0 \<le> n" "n \<le> w"
    using b strlen_nonneg [of formatted] by (auto simp add: n)
  have "c + n - 1 \<le> ?cols" using b n0 by arith
  then have span: "0 \<le> ?p" "?p + 2 * n \<le> ?rows * 2 * ?cols"
    using row_span_in_image [of r ?rows c n ?cols] b n0 by simp_all
  from print_cells_result [of ?p w ?str img ?a] span b len
  obtain img' where r: "print_cells img ?p ?str w ?a = Some img'" "length img' = length img"
    and cells: "\<And>j. 0 \<le> j \<Longrightarrow> j < n \<Longrightarrow>
          byte_at img' (?p + 2 * j) = ?str ! nat j \<and> byte_at img' (?p + 2 * j + 1) = ?a"
    and frame: "\<And>y. 0 \<le> y \<Longrightarrow> y < int (length img) \<Longrightarrow> y < ?p \<or> ?p + 2 * n \<le> y \<Longrightarrow>
          byte_at img' y = byte_at img y"
    unfolding n' [symmetric] by (auto simp add: vsnprintf_terminated)
  have run: "print s row column count attribute formatted = Some (s\<lparr>screen_image := Some img'\<rparr>)"
    using adj img r by (simp add: print_def)
  have "if r' = r \<and> c \<le> c' \<and> c' < c + n
           then char_at ?cols img' r' c' = formatted ! nat (c' - c)
              \<and> attr_at ?cols img' r' c' = ?a
           else char_at ?cols img' r' c' = char_at ?cols img r' c'
              \<and> attr_at ?cols img' r' c' = attr_at ?cols img r' c'"
    if on: "1 \<le> r'" "r' \<le> ?rows" "1 \<le> c'" "c' \<le> ?cols" for r' c'
  proof (cases "r' = r \<and> c \<le> c' \<and> c' < c + n")
    case True
    then have j: "0 \<le> c' - c" "c' - c < n" by auto
    have "screen_offset ?cols r' c' = ?p + 2 * (c' - c)"
      using True screen_offset_row [of ?cols r 0 c "c' - c"] by simp
    moreover have "?str ! nat (c' - c) = formatted ! nat (c' - c)"
      using j by (intro vsnprintf_nth) (simp_all add: n')
    ultimately show ?thesis
      using True cells [OF j] by (simp add: char_at_def attr_at_def)
  next
    case False
    have in_img: "0 \<le> screen_offset ?cols r' c'"
      "screen_offset ?cols r' c' + 1 < int (length img)"
      using cell_in_image [OF on] len by auto
    have cn: "c + n - 1 \<le> ?cols" using b n0 by arith
    have "\<not> (?p \<le> screen_offset ?cols r' c' + 0
        \<and> screen_offset ?cols r' c' + 0 < ?p + 2 * n)"
      using False by (subst cell_in_row_span) (use on b n0 cn in simp_all)
    then have out0: "screen_offset ?cols r' c' < ?p \<or> ?p + 2 * n \<le> screen_offset ?cols r' c'"
      by arith
    have "\<not> (?p \<le> screen_offset ?cols r' c' + 1
        \<and> screen_offset ?cols r' c' + 1 < ?p + 2 * n)"
      using False by (subst cell_in_row_span) (use on b n0 cn in simp_all)
    then have out1: "screen_offset ?cols r' c' + 1 < ?p
        \<or> ?p + 2 * n \<le> screen_offset ?cols r' c' + 1"
      by arith
    show ?thesis
      unfolding if_not_P [OF False]
      using frame [OF _ _ out0] frame [OF _ _ out1] in_img
      by (simp add: char_at_def attr_at_def)
  qed
  with run r(2) show ?thesis by blast
qed

lemma size_t_to_int_small:
  "size_t_to_int 0 = 0" "size_t_to_int 1 = 1" "size_t_to_int 5 = 5"
  "size_t_to_int 5000 = 5000" "size_t_to_int 2147483647 = 2147483647"
  by (simp_all add: size_t_to_int_def)

text \<open>
  C4. The claim asks that \<open>print\<close> write at most \<open>maxCount\<close> cells, for every
  \<open>maxCount \<ge> 0\<close>, and the function's own comment calls the parameter ``the maximum
  number of characters to print''. With \<open>maxCount = 0\<close> the guard
  \<^verbatim>\<open>if (w <= 0) w = 1\<close> of \<^verbatim>\<open>adjust_dimensions\<close> turns the width 0 into 1, and
  \<^verbatim>\<open>print(1, 1, 0, 0x17, "A")\<close> writes one cell: on a blank screen of two rows and three
  columns the cell at row 1, column 1 becomes \<open>A\<close> with the attribute \<open>0x17\<close>.
\<close>

theorem print_count_zero_writes_a_cell:
  "print small_scr 1 1 0 0x17 [65]
     = Some (small_scr\<lparr>screen_image := Some [65, 0x17, 32, 7, 32, 7, 32, 7, 32, 7, 32, 7]\<rparr>)
   \<and> screen_image small_scr = Some [32, 7, 32, 7, 32, 7, 32, 7, 32, 7, 32, 7]"
  by (simp add: print_def small_scr_def adjust_dimensions_def int_add_def int_sub_def
      int_wrap_def size_t_to_int_def vsnprintf_def
      maximum_print_size_def screen_offset_def poke_def convert_attribute_def to_char_def)

text \<open>
  The claim also asks that \<open>print\<close> write into one row and stop at the right edge of the
  screen. With \<open>maxCount = 2147483647\<close> at column 2 the sum \<^verbatim>\<open>c + w - 1\<close> of
  \<^verbatim>\<open>adjust_dimensions\<close> overflows, the width is not clamped, and a text of three
  characters runs from the cell at row 1, column 2 over the right edge into row 2.
\<close>

lemma print_count_overflow_leaves_row:
  "print small_scr 1 2 2147483647 0x17 [65, 66, 67]
     = Some (small_scr\<lparr>screen_image :=
         Some [32, 7, 65, 0x17, 66, 0x17, 67, 0x17, 32, 7, 32, 7]\<rparr>)"
  by (simp add: print_def small_scr_def adjust_dimensions_def int_add_def int_sub_def
      int_wrap_def size_t_to_int_small vsnprintf_def
      maximum_print_size_def screen_offset_def poke_def convert_attribute_def to_char_def)

lemma print_text_cells_on_screen:
  assumes s: "active_session s" and img: "screen_image s = Some img"
    and adj: "adjust_dimensions (total_rows s) (total_columns s) row column
        (size_t_to_int count) 1 = (r, c, w, h)"
    and fit: "sums_in_int (total_rows s) (total_columns s) row column (size_t_to_int count) 1"
    and n: "n = min w (min 1024 (strlen formatted))"
  shows "\<exists>img'. print_text s row column count formatted = Some (s\<lparr>screen_image := Some img'\<rparr>)
    \<and> length img' = length img
    \<and> (\<forall>r' c'. 1 \<le> r' \<and> r' \<le> total_rows s \<and> 1 \<le> c' \<and> c' \<le> total_columns s \<longrightarrow>
          attr_at (total_columns s) img' r' c' = attr_at (total_columns s) img r' c'
          \<and> char_at (total_columns s) img' r' c'
            = (if r' = r \<and> c \<le> c' \<and> c' < c + n then formatted ! nat (c' - c)
               else char_at (total_columns s) img r' c'))"
proof -
  let ?cols = "total_columns s" and ?rows = "total_rows s"
  let ?p = "screen_offset ?cols r c"
  let ?str = "vsnprintf formatted"
  from s have g: "1 \<le> ?rows" "1 \<le> ?cols" and al: "allocated s"
    by (simp_all add: active_session_def)
  from al img have len: "int (length img) = ?rows * 2 * ?cols"
    by (auto elim: allocatedE)
  note b = adjust_dimensions_bounds [OF g adj fit]
  have n': "n = min w (strlen ?str)"
    by (simp add: n strlen_vsnprintf maximum_print_size_def)
  have n0: "0 \<le> n" "n \<le> w"
    using b strlen_nonneg [of formatted] by (auto simp add: n)
  have cn: "c + n - 1 \<le> ?cols" using b n0 by arith
  then have span: "0 \<le> ?p" "?p + 2 * n \<le> ?rows * 2 * ?cols"
    using row_span_in_image [of r ?rows c n ?cols] b n0 by simp_all
  from print_text_cells_result [of ?p w ?str img] span b len
  obtain img' where r: "print_text_cells img ?p ?str w = Some img'" "length img' = length img"
    and cells: "\<And>j. 0 \<le> j \<Longrightarrow> j < n \<Longrightarrow> byte_at img' (?p + 2 * j) = ?str ! nat j"
    and frame: "\<And>y. 0 \<le> y \<Longrightarrow> y < int (length img) \<Longrightarrow>
          y < ?p \<or> ?p + 2 * n \<le> y \<or> odd (y - ?p) \<Longrightarrow> byte_at img' y = byte_at img y"
    unfolding n' [symmetric] by (auto simp add: vsnprintf_terminated)
  have run: "print_text s row column count formatted = Some (s\<lparr>screen_image := Some img'\<rparr>)"
    using adj img r by (simp add: print_text_def)
  have "attr_at ?cols img' r' c' = attr_at ?cols img r' c'
          \<and> char_at ?cols img' r' c'
            = (if r' = r \<and> c \<le> c' \<and> c' < c + n then formatted ! nat (c' - c)
               else char_at ?cols img r' c')"
    if on: "1 \<le> r'" "r' \<le> ?rows" "1 \<le> c'" "c' \<le> ?cols" for r' c'
  proof -
    have in_img: "0 \<le> screen_offset ?cols r' c'"
      "screen_offset ?cols r' c' + 1 < int (length img)"
      using cell_in_image [OF on] len by auto
    have "odd (screen_offset ?cols r' c' + 1 - ?p)"
      by (simp add: screen_offset_def)
    then have at: "attr_at ?cols img' r' c' = attr_at ?cols img r' c'"
      unfolding attr_at_def using in_img by (intro frame) auto
    show ?thesis
    proof (cases "r' = r \<and> c \<le> c' \<and> c' < c + n")
      case True
      then have j: "0 \<le> c' - c" "c' - c < n" by auto
      have "screen_offset ?cols r' c' = ?p + 2 * (c' - c)"
        using True screen_offset_row [of ?cols r 0 c "c' - c"] by simp
      moreover have "?str ! nat (c' - c) = formatted ! nat (c' - c)"
        using j by (intro vsnprintf_nth) (simp_all add: n')
      ultimately show ?thesis
        using True cells [OF j] at by (simp add: char_at_def)
    next
      case False
      have "\<not> (?p \<le> screen_offset ?cols r' c' + 0
          \<and> screen_offset ?cols r' c' + 0 < ?p + 2 * n)"
        using False by (subst cell_in_row_span) (use on b n0 cn in simp_all)
      then have out0: "screen_offset ?cols r' c' < ?p \<or> ?p + 2 * n \<le> screen_offset ?cols r' c'
          \<or> odd (screen_offset ?cols r' c' - ?p)"
        by arith
      show ?thesis
        unfolding if_not_P [OF False]
        using frame [OF _ _ out0] in_img at
        by (simp add: char_at_def)
    qed
  qed
  with run r(2) show ?thesis by blast
qed

lemma vsnprintf_take: "vsnprintf (take maximum_print_size formatted) = vsnprintf formatted"
  by (simp add: vsnprintf_def)

text \<open>
  What \<open>print\<close> and \<open>print_text\<close> do when the cells they write lie in the image: the
  \<open>n\<close> cells from the offset \<open>p\<close> of the clamped position on take the first \<open>n\<close>
  characters of the text, and no other byte changes.
\<close>

lemma print_in_image:
  assumes "active_session s" and "screen_image s = Some img"
    and "adjust_dimensions (total_rows s) (total_columns s) row column
        (size_t_to_int count) 1 = (r, c, w, h)"
    and "n = min w (min (int maximum_print_size) (strlen formatted))"
    and "p = screen_offset (total_columns s) r c"
    and "p + 2 * n \<le> int (length img)"
  shows "print s row column count attribute formatted
      = print s row column count attribute (take maximum_print_size formatted)
    \<and> print_text s row column count formatted
      = print_text s row column count (take maximum_print_size formatted)
    \<and> 0 \<le> n \<and> n \<le> int maximum_print_size
    \<and> (\<exists>img1. print s row column count attribute formatted
          = Some (s\<lparr>screen_image := Some img1\<rparr>)
      \<and> length img1 = length img
      \<and> (\<forall>j. 0 \<le> j \<and> j < n \<longrightarrow>
            byte_at img1 (p + 2 * j) = formatted ! nat j
          \<and> byte_at img1 (p + 2 * j + 1)
              = to_char (convert_attribute (color_works s) attribute))
      \<and> (\<forall>y. 0 \<le> y \<and> y < int (length img) \<and> (y < p \<or> p + 2 * n \<le> y) \<longrightarrow>
            byte_at img1 y = byte_at img y))
    \<and> (\<exists>img2. print_text s row column count formatted
          = Some (s\<lparr>screen_image := Some img2\<rparr>)
      \<and> length img2 = length img
      \<and> (\<forall>j. 0 \<le> j \<and> j < n \<longrightarrow> byte_at img2 (p + 2 * j) = formatted ! nat j)
      \<and> (\<forall>y. 0 \<le> y \<and> y < int (length img)
            \<and> (y < p \<or> p + 2 * n \<le> y \<or> odd (y - p)) \<longrightarrow>
            byte_at img2 y = byte_at img y))"
proof -
  let ?str = "vsnprintf formatted"
  let ?a = "to_char (convert_attribute (color_works s) attribute)"
  note g = active_session_geometry [OF assms(1)]
  have gi: "total_rows s \<le> INT_MAX" "total_columns s \<le> INT_MAX"
    using g(2,4) by simp_all
  note k = adjust_dimensions_corner [OF g(1,3) assms(3)]
  have w: "1 \<le> w"
    using adjust_dimensions_positive(1) [OF g(1) gi(1) g(3) gi(2) assms(3)] .
  have n': "n = min w (strlen ?str)"
    by (simp add: assms(4) strlen_vsnprintf)
  have n: "0 \<le> n" "n \<le> int maximum_print_size"
    using w strlen_nonneg [of formatted] by (auto simp add: assms(4))
  have p0: "0 \<le> p"
  proof -
    have "1 \<le> r" "r \<le> total_rows s" "1 \<le> c" "c + 0 - 1 \<le> total_columns s"
      using g(1,3) unfolding k by simp_all
    from row_span_in_image [OF this(1,2,3) _ this(4)] show ?thesis
      by (simp add: assms(5))
  qed
  have same: "?str ! nat j = formatted ! nat j" if "0 \<le> j" "j < n" for j
    using that by (intro vsnprintf_nth) (simp_all add: n')
  have e: "print s row column count attribute formatted
      = print s row column count attribute (take maximum_print_size formatted)"
    "print_text s row column count formatted
      = print_text s row column count (take maximum_print_size formatted)"
    by (simp_all add: print_def print_text_def vsnprintf_take)
  from print_cells_result [of p w ?str img ?a] p0 w assms(6)
  obtain img1 where r1: "print_cells img p ?str w ?a = Some img1" "length img1 = length img"
    and cells1: "\<And>j. 0 \<le> j \<Longrightarrow> j < n \<Longrightarrow>
          byte_at img1 (p + 2 * j) = ?str ! nat j \<and> byte_at img1 (p + 2 * j + 1) = ?a"
    and frame1: "\<And>y. 0 \<le> y \<Longrightarrow> y < int (length img) \<Longrightarrow> y < p \<or> p + 2 * n \<le> y \<Longrightarrow>
          byte_at img1 y = byte_at img y"
    unfolding n' [symmetric] by (auto simp add: vsnprintf_terminated)
  have run1: "print s row column count attribute formatted
      = Some (s\<lparr>screen_image := Some img1\<rparr>)"
    using assms(2,3) r1(1) by (simp add: print_def assms(5))
  have P1: "\<exists>img1. print s row column count attribute formatted
          = Some (s\<lparr>screen_image := Some img1\<rparr>)
      \<and> length img1 = length img
      \<and> (\<forall>j. 0 \<le> j \<and> j < n \<longrightarrow>
            byte_at img1 (p + 2 * j) = formatted ! nat j \<and> byte_at img1 (p + 2 * j + 1) = ?a)
      \<and> (\<forall>y. 0 \<le> y \<and> y < int (length img) \<and> (y < p \<or> p + 2 * n \<le> y) \<longrightarrow>
            byte_at img1 y = byte_at img y)"
    using run1 r1(2) cells1 frame1 same by (intro exI [of _ img1]) simp
  from print_text_cells_result [of p w ?str img] p0 w assms(6)
  obtain img2 where r2: "print_text_cells img p ?str w = Some img2" "length img2 = length img"
    and cells2: "\<And>j. 0 \<le> j \<Longrightarrow> j < n \<Longrightarrow> byte_at img2 (p + 2 * j) = ?str ! nat j"
    and frame2: "\<And>y. 0 \<le> y \<Longrightarrow> y < int (length img) \<Longrightarrow>
          y < p \<or> p + 2 * n \<le> y \<or> odd (y - p) \<Longrightarrow> byte_at img2 y = byte_at img y"
    unfolding n' [symmetric] by (auto simp add: vsnprintf_terminated)
  have run2: "print_text s row column count formatted = Some (s\<lparr>screen_image := Some img2\<rparr>)"
    using assms(2,3) r2(1) by (simp add: print_text_def assms(5))
  have P2: "\<exists>img2. print_text s row column count formatted
          = Some (s\<lparr>screen_image := Some img2\<rparr>)
      \<and> length img2 = length img
      \<and> (\<forall>j. 0 \<le> j \<and> j < n \<longrightarrow> byte_at img2 (p + 2 * j) = formatted ! nat j)
      \<and> (\<forall>y. 0 \<le> y \<and> y < int (length img)
            \<and> (y < p \<or> p + 2 * n \<le> y \<or> odd (y - p)) \<longrightarrow>
            byte_at img2 y = byte_at img y)"
    using run2 r2(2) cells2 frame2 same by (intro exI [of _ img2]) simp
  from e n P1 P2 show ?thesis by (intro conjI)
qed

text \<open>A text that runs past the end of the image: the write is undefined.\<close>

lemma print_cells_overrun:
  assumes "0 \<le> p" and "p \<le> int (length img)" and "0 \<le> w" and "(0::byte) \<in> set str"
    and "int (length img) < p + 2 * min w (strlen str)"
  shows "print_cells img p str w a = None"
  using assms
proof (induction str arbitrary: img p w)
  case Nil
  then show ?case by simp
next
  case (Cons ch str)
  show ?case
  proof (cases "ch \<noteq> 0 \<and> w \<noteq> 0")
    case False
    then have "min w (strlen (ch # str)) = 0"
      using Cons.prems strlen_nonneg [of str] by (auto simp add: strlen_Cons)
    with Cons.prems show ?thesis by simp
  next
    case True
    then have m: "min w (strlen (ch # str)) = 1 + min (w - 1) (strlen str)"
      by (auto simp add: strlen_Cons)
    show ?thesis
    proof (cases "p + 1 < int (length img)")
      case False
      then have "poke img p ch = None \<or> poke (img[nat p := ch]) (p + 1) a = None"
        by (simp add: poke_def)
      moreover have "poke img p ch = None \<or> poke img p ch = Some (img[nat p := ch])"
        by (simp add: poke_def)
      ultimately show ?thesis using True by auto
    next
      case b: True
      let ?i2 = "img[nat p := ch, nat (p + 1) := a]"
      have p1: "poke img p ch = Some (img[nat p := ch])"
        using Cons.prems b by (simp add: poke_in_bounds)
      have p2: "poke (img[nat p := ch]) (p + 1) a = Some ?i2"
        using Cons.prems b by (simp add: poke_in_bounds)
      have "print_cells ?i2 (p + 2) str (w - 1) a = None"
        using Cons.prems True m b by (intro Cons.IH) auto
      with True p1 p2 show ?thesis by simp
    qed
  qed
qed

lemma print_text_cells_overrun:
  assumes "0 \<le> p" and "p \<le> int (length img)" and "even (int (length img) - p)"
    and "0 \<le> w" and "(0::byte) \<in> set str"
    and "int (length img) < p + 2 * min w (strlen str)"
  shows "print_text_cells img p str w = None"
  using assms
proof (induction str arbitrary: img p w)
  case Nil
  then show ?case by simp
next
  case (Cons ch str)
  show ?case
  proof (cases "ch \<noteq> 0 \<and> w \<noteq> 0")
    case False
    then have "min w (strlen (ch # str)) = 0"
      using Cons.prems strlen_nonneg [of str] by (auto simp add: strlen_Cons)
    with Cons.prems show ?thesis by simp
  next
    case True
    then have m: "min w (strlen (ch # str)) = 1 + min (w - 1) (strlen str)"
      by (auto simp add: strlen_Cons)
    show ?thesis
    proof (cases "p < int (length img)")
      case False
      then have "poke img p ch = None" by (simp add: poke_def)
      with True show ?thesis by simp
    next
      case b: True
      let ?i1 = "img[nat p := ch]"
      have p1: "poke img p ch = Some ?i1"
        using Cons.prems b by (simp add: poke_in_bounds)
      have "p + 1 \<noteq> int (length img)"
        using Cons.prems(3) by presburger
      then have "p + 2 \<le> int (length img)" using b by simp
      then have "print_text_cells ?i1 (p + 2) str (w - 1) = None"
        using Cons.prems True m by (intro Cons.IH) auto
      with True p1 show ?thesis by simp
    qed
  qed
qed

text \<open>
  C10. \<open>print\<close> and \<open>print_text\<close> do with a formatted text what they do with its first
  1024 characters, whatever the count. With \<open>(r, c, w, h)\<close> the clamped position and
  width and \<open>p\<close> the offset of the cell \<open>(r, c)\<close> in the image, they write exactly
  \<open>n\<close> cells, \<open>n\<close> the smallest of \<open>w\<close>, 1024 and the length of the text up to its first
  terminator, so never more than 1024: when these cells lie in the image, both calls
  return, the characters of the \<open>n\<close> cells from \<open>p\<close> on are the first \<open>n\<close> characters of
  the text (\<open>print\<close> also sets their attribute bytes to the converted attribute), and
  every other byte of the image is as before; when they do not, the calls write past the
  image (no result). Where no sum of the clamp overflows the cells lie in row \<open>r\<close> of the
  screen (\<open>print_cells_on_screen\<close>, \<open>print_text_cells_on_screen\<close>).
\<close>

theorem print_truncates_at_maximum_print_size:
  assumes "active_session s" and "screen_image s = Some img"
    and "adjust_dimensions (total_rows s) (total_columns s) row column
        (size_t_to_int count) 1 = (r, c, w, h)"
    and "n = min w (min (int maximum_print_size) (strlen formatted))"
    and "p = screen_offset (total_columns s) r c"
  shows "print s row column count attribute formatted
      = print s row column count attribute (take maximum_print_size formatted)
    \<and> print_text s row column count formatted
      = print_text s row column count (take maximum_print_size formatted)
    \<and> 0 \<le> n \<and> n \<le> int maximum_print_size
    \<and> (if p + 2 * n \<le> int (length img) then
        (\<exists>img1. print s row column count attribute formatted
            = Some (s\<lparr>screen_image := Some img1\<rparr>)
          \<and> length img1 = length img
          \<and> (\<forall>j. 0 \<le> j \<and> j < n \<longrightarrow>
                byte_at img1 (p + 2 * j) = formatted ! nat j
              \<and> byte_at img1 (p + 2 * j + 1)
                  = to_char (convert_attribute (color_works s) attribute))
          \<and> (\<forall>y. 0 \<le> y \<and> y < int (length img) \<and> (y < p \<or> p + 2 * n \<le> y) \<longrightarrow>
                byte_at img1 y = byte_at img y))
        \<and> (\<exists>img2. print_text s row column count formatted
            = Some (s\<lparr>screen_image := Some img2\<rparr>)
          \<and> length img2 = length img
          \<and> (\<forall>j. 0 \<le> j \<and> j < n \<longrightarrow> byte_at img2 (p + 2 * j) = formatted ! nat j)
          \<and> (\<forall>y. 0 \<le> y \<and> y < int (length img)
                \<and> (y < p \<or> p + 2 * n \<le> y \<or> odd (y - p)) \<longrightarrow>
                byte_at img2 y = byte_at img y))
      else print s row column count attribute formatted = None
        \<and> print_text s row column count formatted = None)"
proof (cases "p + 2 * n \<le> int (length img)")
  case True
  from print_in_image [OF assms True] show ?thesis
    unfolding if_P [OF True] .
next
  case False
  let ?str = "vsnprintf formatted"
  let ?a = "to_char (convert_attribute (color_works s) attribute)"
  note g = active_session_geometry [OF assms(1)]
  have gi: "total_rows s \<le> INT_MAX" "total_columns s \<le> INT_MAX"
    using g(2,4) by simp_all
  from assms(1) have al: "allocated s" by (simp add: active_session_def)
  with assms(2) have len: "int (length img) = total_rows s * 2 * total_columns s"
    by (auto elim: allocatedE)
  note k = adjust_dimensions_corner [OF g(1,3) assms(3)]
  have w: "1 \<le> w"
    using adjust_dimensions_positive(1) [OF g(1) gi(1) g(3) gi(2) assms(3)] .
  have n': "n = min w (strlen ?str)"
    by (simp add: assms(4) strlen_vsnprintf)
  have n: "0 \<le> n" "n \<le> int maximum_print_size"
    using w strlen_nonneg [of formatted] by (auto simp add: assms(4))
  have on: "1 \<le> r" "r \<le> total_rows s" "1 \<le> c" "c \<le> total_columns s"
    using g(1,3) unfolding k by simp_all
  from cell_in_image [OF on] have p: "0 \<le> p" "p \<le> int (length img)"
    unfolding assms(5) len by simp_all
  have ev: "even (int (length img) - p)"
    by (simp add: len assms(5) screen_offset_def)
  have over: "int (length img) < p + 2 * min w (strlen ?str)"
    using False by (simp add: n')
  have "print_cells img p ?str w ?a = None"
    using p w over by (intro print_cells_overrun) (simp_all add: vsnprintf_terminated)
  then have r1: "print s row column count attribute formatted = None"
    using assms(2,3) by (simp add: print_def assms(5))
  have "print_text_cells img p ?str w = None"
    using p ev w over by (intro print_text_cells_overrun) (simp_all add: vsnprintf_terminated)
  then have r2: "print_text s row column count formatted = None"
    using assms(2,3) by (simp add: print_text_def assms(5))
  have e: "print s row column count attribute formatted
      = print s row column count attribute (take maximum_print_size formatted)"
    "print_text s row column count formatted
      = print_text s row column count (take maximum_print_size formatted)"
    by (simp_all add: print_def print_text_def vsnprintf_take)
  from e n r1 r2 show ?thesis
    unfolding if_not_P [OF False] by (intro conjI)
qed

theorem print_truncates_at_maximum_print_size_witness:
  "print wide_scr 1 1 5000 7 (replicate 2000 65)
     = print wide_scr 1 1 5000 7 (replicate 1024 65)
   \<and> (\<exists>img1. print wide_scr 1 1 5000 7 (replicate 2000 65)
          = Some (wide_scr\<lparr>screen_image := Some img1\<rparr>)
        \<and> cell_at 1100 img1 1 1 = (65, 7) \<and> cell_at 1100 img1 1 1024 = (65, 7)
        \<and> cell_at 1100 img1 1 1025 = (0, 0))
   \<and> (\<exists>img2. print_text wide_scr 1 1 5000 (replicate 2000 65)
          = Some (wide_scr\<lparr>screen_image := Some img2\<rparr>)
        \<and> cell_at 1100 img2 1 1 = (65, 0) \<and> cell_at 1100 img2 1 1024 = (65, 0)
        \<and> cell_at 1100 img2 1 1025 = (0, 0))"
proof -
  let ?img = "replicate 2200 0 :: byte list"
  let ?text = "replicate 2000 65 :: byte list"
  have fields: "total_rows wide_scr = 1" "total_columns wide_scr = 1100"
    "color_works wide_scr = True"
    by (simp_all add: wide_scr_def)
  have a: "active_session wide_scr"
    by (simp add: active_session_def allocated_def wide_scr_def)
  have i: "screen_image wide_scr = Some ?img"
    by (simp add: wide_scr_def)
  have d: "adjust_dimensions (total_rows wide_scr) (total_columns wide_scr) 1 1
      (size_t_to_int 5000) 1 = (1, 1, 1100, 1)"
    by (simp add: fields adjust_dimensions_def size_t_to_int_def int_add_def int_sub_def
        int_wrap_def)
  have n: "1024 = min 1100 (min (int maximum_print_size) (strlen ?text))"
    by (simp add: strlen_def maximum_print_size_def)
  have p: "0 = screen_offset (total_columns wide_scr) 1 1"
    by (simp add: screen_offset_def)
  have f: "(0::int) + 2 * 1024 \<le> int (length ?img)"
    by simp
  note t = print_truncates_at_maximum_print_size [OF a i d n p, of 7, unfolded if_P [OF f]]
  have e: "print wide_scr 1 1 5000 7 ?text = print wide_scr 1 1 5000 7 (replicate 1024 65)"
    using t [THEN conjunct1] by (simp add: maximum_print_size_def)
  from t obtain img1 where r1: "print wide_scr 1 1 5000 7 ?text
        = Some (wide_scr\<lparr>screen_image := Some img1\<rparr>)"
    and cells1: "\<forall>j. 0 \<le> j \<and> j < 1024 \<longrightarrow>
            byte_at img1 (0 + 2 * j) = ?text ! nat j
          \<and> byte_at img1 (0 + 2 * j + 1) = to_char (convert_attribute (color_works wide_scr) 7)"
    and frame1: "\<forall>y. 0 \<le> y \<and> y < int (length ?img) \<and> (y < 0 \<or> 0 + 2 * 1024 \<le> y) \<longrightarrow>
            byte_at img1 y = byte_at ?img y"
    by blast
  from t obtain img2 where r2: "print_text wide_scr 1 1 5000 ?text
        = Some (wide_scr\<lparr>screen_image := Some img2\<rparr>)"
    and cells2: "\<forall>j. 0 \<le> j \<and> j < 1024 \<longrightarrow> byte_at img2 (0 + 2 * j) = ?text ! nat j"
    and frame2: "\<forall>y. 0 \<le> y \<and> y < int (length ?img)
            \<and> (y < 0 \<or> 0 + 2 * 1024 \<le> y \<or> odd (y - 0)) \<longrightarrow>
            byte_at img2 y = byte_at ?img y"
    by blast
  have c1: "cell_at 1100 img1 1 1 = (65, 7) \<and> cell_at 1100 img1 1 1024 = (65, 7)
        \<and> cell_at 1100 img1 1 1025 = (0, 0)"
    using cells1 [rule_format, of 0] cells1 [rule_format, of 1023]
      frame1 [rule_format, of 2048] frame1 [rule_format, of 2049]
    by (simp add: cell_at_def char_at_def attr_at_def screen_offset_def byte_at_def fields
        convert_attribute_def to_char_def)
  have c2: "cell_at 1100 img2 1 1 = (65, 0) \<and> cell_at 1100 img2 1 1024 = (65, 0)
        \<and> cell_at 1100 img2 1 1025 = (0, 0)"
    using cells2 [rule_format, of 0] cells2 [rule_format, of 1023]
      frame2 [rule_format, of 1] frame2 [rule_format, of 2047]
      frame2 [rule_format, of 2048] frame2 [rule_format, of 2049]
    by (simp add: cell_at_def char_at_def attr_at_def screen_offset_def byte_at_def)
  from e r1 c1 r2 c2 show ?thesis by blast
qed


section \<open>Clearing a region\<close>

lemma clear_cells_result:
  assumes "0 \<le> d" and "i \<le> width" and "d + 2 * (width - i) \<le> int (length img)"
  shows "\<exists>img'. clear_cells img d i width a = Some img' \<and> length img' = length img
    \<and> (\<forall>j. 0 \<le> j \<and> j < width - i \<longrightarrow>
          byte_at img' (d + 2 * j) = 32 \<and> byte_at img' (d + 2 * j + 1) = a)
    \<and> (\<forall>y. 0 \<le> y \<and> y < int (length img) \<and> (y < d \<or> d + 2 * (width - i) \<le> y) \<longrightarrow>
          byte_at img' y = byte_at img y)"
  using assms
proof (induction img d i width a rule: clear_cells.induct)
  case (1 img d i width a)
  show ?case
  proof (cases "i < width")
    case False
    with "1.prems" have "i = width" by simp
    then show ?thesis by (auto simp add: clear_cells.simps)
  next
    case True
    let ?i1 = "img[nat d := 32]"
    let ?i2 = "?i1[nat (d + 1) := a]"
    have b: "d + 1 < int (length img)"
      using "1.prems" True by arith
    have p1: "poke img d 32 = Some ?i1"
      using "1.prems" b by (simp add: poke_in_bounds)
    have p2: "poke ?i1 (d + 1) a = Some ?i2"
      using "1.prems" b by (simp add: poke_in_bounds)
    have "\<exists>img'. clear_cells ?i2 (d + 2) (i + 1) width a = Some img'
      \<and> length img' = length ?i2
      \<and> (\<forall>j. 0 \<le> j \<and> j < width - (i + 1) \<longrightarrow>
            byte_at img' (d + 2 + 2 * j) = 32 \<and> byte_at img' (d + 2 + 2 * j + 1) = a)
      \<and> (\<forall>y. 0 \<le> y \<and> y < int (length ?i2)
            \<and> (y < d + 2 \<or> d + 2 + 2 * (width - (i + 1)) \<le> y) \<longrightarrow>
            byte_at img' y = byte_at ?i2 y)"
      using "1.prems" True by (intro "1.IH" [OF True p1 p2]) auto
    then obtain img' where r: "clear_cells ?i2 (d + 2) (i + 1) width a = Some img'"
      "length img' = length img"
      and cells: "\<And>j. 0 \<le> j \<Longrightarrow> j < width - (i + 1) \<Longrightarrow>
            byte_at img' (d + 2 + 2 * j) = 32 \<and> byte_at img' (d + 2 + 2 * j + 1) = a"
      and frame: "\<And>y. 0 \<le> y \<Longrightarrow> y < int (length img) \<Longrightarrow>
            y < d + 2 \<or> d + 2 + 2 * (width - (i + 1)) \<le> y \<Longrightarrow>
            byte_at img' y = byte_at ?i2 y"
      by auto
    have i2: "byte_at ?i2 y = (if y = d + 1 then a else if y = d then 32 else byte_at img y)"
      if "0 \<le> y" for y
      using that "1.prems" b by (simp add: byte_at_update)
    have run: "clear_cells img d i width a = Some img'"
      using True p1 p2 r by (subst clear_cells.simps) simp
    have c: "byte_at img' (d + 2 * j) = 32 \<and> byte_at img' (d + 2 * j + 1) = a"
      if j: "0 \<le> j" "j < width - i" for j
    proof (cases "j = 0")
      case True
      then show ?thesis
        using frame [of d] frame [of "d + 1"] "1.prems" b by (simp add: i2)
    next
      case False
      then have j1: "0 \<le> j - 1" "j - 1 < width - (i + 1)"
        using j by auto
      have "d + 2 + 2 * (j - 1) = d + 2 * j" by simp
      with cells [OF j1] show ?thesis by simp
    qed
    have f: "byte_at img' y = byte_at img y"
      if y: "0 \<le> y" "y < int (length img)" "y < d \<or> d + 2 * (width - i) \<le> y" for y
    proof -
      have "y < d + 2 \<or> d + 2 + 2 * (width - (i + 1)) \<le> y"
        using y by arith
      from frame [OF y(1,2) this] have "byte_at img' y = byte_at ?i2 y" .
      also have "\<dots> = byte_at img y"
      proof -
        have "y \<noteq> d" "y \<noteq> d + 1" using y(3) True by arith+
        then show ?thesis using y by (simp add: i2)
      qed
      finally show ?thesis .
    qed
    from run r(2) c f show ?thesis by blast
  qed
qed

lemma row_step:
  fixes k stride :: int
  shows "p + stride + (k - 1) * stride = p + k * stride"
  by (simp add: algebra_simps)

lemma clear_rows_result:
  assumes "0 \<le> p" and "0 \<le> width" and "2 * width \<le> stride"
    and "h = 0 \<or> p + (int h - 1) * stride + 2 * width \<le> int (length img)"
  shows "\<exists>img'. clear_rows img p stride width a h = Some img' \<and> length img' = length img
    \<and> (\<forall>k j. 0 \<le> k \<and> k < int h \<and> 0 \<le> j \<and> j < width \<longrightarrow>
          byte_at img' (p + k * stride + 2 * j) = 32
        \<and> byte_at img' (p + k * stride + 2 * j + 1) = a)
    \<and> (\<forall>y. 0 \<le> y \<and> y < int (length img)
          \<and> (\<forall>k. 0 \<le> k \<and> k < int h \<longrightarrow> y < p + k * stride \<or> p + k * stride + 2 * width \<le> y)
          \<longrightarrow> byte_at img' y = byte_at img y)"
  using assms
proof (induction h arbitrary: img p)
  case 0
  then show ?case by auto
next
  case (Suc h)
  have S: "0 \<le> stride" using Suc.prems by arith
  have hs: "0 \<le> int h * stride" using S by simp
  have last: "p + int h * stride + 2 * width \<le> int (length img)"
    using Suc.prems(4) by simp
  have first: "p + 2 * (width - 0) \<le> int (length img)"
    using last hs by arith
  from clear_cells_result [OF Suc.prems(1) Suc.prems(2) first, of a]
  obtain img1 where r1: "clear_cells img p 0 width a = Some img1" "length img1 = length img"
    and cells1: "\<And>j. 0 \<le> j \<Longrightarrow> j < width \<Longrightarrow>
          byte_at img1 (p + 2 * j) = 32 \<and> byte_at img1 (p + 2 * j + 1) = a"
    and frame1: "\<And>y. 0 \<le> y \<Longrightarrow> y < int (length img) \<Longrightarrow> y < p \<or> p + 2 * width \<le> y \<Longrightarrow>
          byte_at img1 y = byte_at img y"
    by auto
  have pre: "h = 0 \<or> p + stride + (int h - 1) * stride + 2 * width \<le> int (length img1)"
    using last r1(2) by (simp add: row_step)
  have "0 \<le> p + stride" using Suc.prems S by arith
  from Suc.IH [OF this Suc.prems(2,3) pre]
  obtain img' where r: "clear_rows img1 (p + stride) stride width a h = Some img'"
    "length img' = length img"
    and cells: "\<And>k j. 0 \<le> k \<Longrightarrow> k < int h \<Longrightarrow> 0 \<le> j \<Longrightarrow> j < width \<Longrightarrow>
          byte_at img' (p + stride + k * stride + 2 * j) = 32
        \<and> byte_at img' (p + stride + k * stride + 2 * j + 1) = a"
    and frame: "\<And>y. 0 \<le> y \<Longrightarrow> y < int (length img) \<Longrightarrow>
          (\<forall>k. 0 \<le> k \<and> k < int h \<longrightarrow>
            y < p + stride + k * stride \<or> p + stride + k * stride + 2 * width \<le> y) \<Longrightarrow>
          byte_at img' y = byte_at img1 y"
    using r1(2) by auto
  have run: "clear_rows img p stride width a (Suc h) = Some img'"
    using r1 r by simp
  have below: "y < p + stride + k * stride" if "y < p + 2 * width" "0 \<le> k" for y k
  proof -
    have "0 \<le> k * stride" using that S by simp
    with that Suc.prems show ?thesis by arith
  qed
  have c: "byte_at img' (p + k * stride + 2 * j) = 32
        \<and> byte_at img' (p + k * stride + 2 * j + 1) = a"
    if kj: "0 \<le> k" "k < int (Suc h)" "0 \<le> j" "j < width" for k j
  proof (cases "k = 0")
    case True
    have in0: "0 \<le> p + 2 * j" "p + 2 * j + 1 < int (length img)"
      using kj first Suc.prems by arith+
    have out: "\<forall>k. 0 \<le> k \<and> k < int h \<longrightarrow>
        y < p + stride + k * stride \<or> p + stride + k * stride + 2 * width \<le> y"
      if "y < p + 2 * width" for y
      using below [OF that] by blast
    have "p + 2 * j < p + 2 * width" "p + 2 * j + 1 < p + 2 * width"
      using kj by arith+
    then have "byte_at img' (p + 2 * j) = byte_at img1 (p + 2 * j)"
      "byte_at img' (p + 2 * j + 1) = byte_at img1 (p + 2 * j + 1)"
      using in0 by (auto intro!: frame out)
    then show ?thesis using True cells1 [OF kj(3,4)] by simp
  next
    case False
    then have k1: "0 \<le> k - 1" "k - 1 < int h" using kj by auto
    from cells [OF k1 kj(3,4)] show ?thesis by (simp add: row_step)
  qed
  have f: "byte_at img' y = byte_at img y"
    if y: "0 \<le> y" "y < int (length img)"
      "\<forall>k. 0 \<le> k \<and> k < int (Suc h) \<longrightarrow> y < p + k * stride \<or> p + k * stride + 2 * width \<le> y"
    for y
  proof -
    have "y < p + stride + k * stride \<or> p + stride + k * stride + 2 * width \<le> y"
      if "0 \<le> k \<and> k < int h" for k
      using y(3) [rule_format, of "k + 1"] that by (simp add: algebra_simps)
    then have "byte_at img' y = byte_at img1 y"
      using y by (intro frame) auto
    also have "\<dots> = byte_at img y"
      using y(3) [rule_format, of 0] y by (intro frame1) auto
    finally show ?thesis .
  qed
  from run r(2) c f show ?case by blast
qed

text \<open>The last row of a region on the screen ends inside the image.\<close>

lemma region_in_image:
  assumes "1 \<le> r" and "1 \<le> c" and "1 \<le> w" and "1 \<le> h"
    and "r + h - 1 \<le> rows" and "c + w - 1 \<le> columns" and "0 \<le> k" and "k < h"
  shows "0 \<le> screen_offset columns r c + k * (2 * columns)"
    and "screen_offset columns r c + k * (2 * columns) + 2 * w \<le> rows * 2 * columns"
proof -
  have e: "screen_offset columns r c + k * (2 * columns) = screen_offset columns (r + k) c"
    using screen_offset_row [of columns r k c 0] by simp
  have "0 \<le> screen_offset columns (r + k) c
    \<and> screen_offset columns (r + k) c + 2 * w \<le> rows * 2 * columns"
    using assms by (intro row_span_in_image) auto
  then show "0 \<le> screen_offset columns r c + k * (2 * columns)"
    and "screen_offset columns r c + k * (2 * columns) + 2 * w \<le> rows * 2 * columns"
    unfolding e by simp_all
qed

text \<open>A byte of a cell outside a region lies in none of the region's rows.\<close>

lemma cell_outside_region:
  assumes "1 \<le> c'" and "c' \<le> columns" and "1 \<le> c" and "0 \<le> w" and "c + w - 1 \<le> columns"
    and "b = 0 \<or> b = 1"
    and "\<not> (r \<le> r' \<and> r' < r + h \<and> c \<le> c' \<and> c' < c + w)"
    and "0 \<le> k" and "k < h"
  shows "screen_offset columns r' c' + b < screen_offset columns r c + k * (2 * columns)
    \<or> screen_offset columns r c + k * (2 * columns) + 2 * w \<le> screen_offset columns r' c' + b"
proof -
  have e: "screen_offset columns r c + k * (2 * columns) = screen_offset columns (r + k) c"
    using screen_offset_row [of columns r k c 0] by simp
  have "\<not> (r' = r + k \<and> c \<le> c' \<and> c' < c + w)"
    using assms by auto
  then have "\<not> (screen_offset columns (r + k) c \<le> screen_offset columns r' c' + b
      \<and> screen_offset columns r' c' + b < screen_offset columns (r + k) c + 2 * w)"
    by (subst cell_in_row_span) (use assms in simp_all)
  then show ?thesis unfolding e by arith
qed

lemma clear_on_screen:
  assumes s: "active_session s" and img: "screen_image s = Some img"
    and adj: "adjust_dimensions (total_rows s) (total_columns s) row column width height
        = (r, c, w, h)"
    and fit: "sums_in_int (total_rows s) (total_columns s) row column width height"
  shows "\<exists>img'. clear s row column width height attribute
        = Some (s\<lparr>screen_image := Some img'\<rparr>)
    \<and> length img' = length img
    \<and> (\<forall>r' c'. 1 \<le> r' \<and> r' \<le> total_rows s \<and> 1 \<le> c' \<and> c' \<le> total_columns s \<longrightarrow>
          (if r \<le> r' \<and> r' < r + h \<and> c \<le> c' \<and> c' < c + w
           then char_at (total_columns s) img' r' c' = 32
              \<and> attr_at (total_columns s) img' r' c'
                  = to_char (convert_attribute (color_works s) attribute)
           else char_at (total_columns s) img' r' c' = char_at (total_columns s) img r' c'
              \<and> attr_at (total_columns s) img' r' c' = attr_at (total_columns s) img r' c'))"
proof -
  let ?cols = "total_columns s" and ?rows = "total_rows s"
  let ?p = "screen_offset ?cols r c"
  let ?a = "to_char (convert_attribute (color_works s) attribute)"
  from s have g: "1 \<le> ?rows" "1 \<le> ?cols" and al: "allocated s"
    by (simp_all add: active_session_def)
  from al img have len: "int (length img) = ?rows * 2 * ?cols"
    by (auto elim: allocatedE)
  note b = adjust_dimensions_bounds [OF g adj fit]
  have h: "int (nat h) = h" using b by simp
  have "c + w - 1 \<le> ?cols" using b by simp
  have p0: "0 \<le> ?p"
    using region_in_image(1) [of r c w h ?rows ?cols 0] b by simp
  have w2: "2 * w \<le> 2 * ?cols" using b by arith
  have last: "nat h = 0 \<or> ?p + (int (nat h) - 1) * (2 * ?cols) + 2 * w \<le> int (length img)"
    using region_in_image(2) [of r c w h ?rows ?cols "h - 1"] b len h by simp
  from clear_rows_result [OF p0 _ w2 last, of ?a] b h
  obtain img' where r: "clear_rows img ?p (2 * ?cols) w ?a (nat h) = Some img'"
    "length img' = length img"
    and cells: "\<And>k j. 0 \<le> k \<Longrightarrow> k < h \<Longrightarrow> 0 \<le> j \<Longrightarrow> j < w \<Longrightarrow>
          byte_at img' (?p + k * (2 * ?cols) + 2 * j) = 32
        \<and> byte_at img' (?p + k * (2 * ?cols) + 2 * j + 1) = ?a"
    and frame: "\<And>y. 0 \<le> y \<Longrightarrow> y < int (length img) \<Longrightarrow>
          (\<forall>k. 0 \<le> k \<and> k < h \<longrightarrow>
            y < ?p + k * (2 * ?cols) \<or> ?p + k * (2 * ?cols) + 2 * w \<le> y) \<Longrightarrow>
          byte_at img' y = byte_at img y"
    by auto
  have run: "clear s row column width height attribute = Some (s\<lparr>screen_image := Some img'\<rparr>)"
    using adj img r by (simp add: clear_def)
  have "if r \<le> r' \<and> r' < r + h \<and> c \<le> c' \<and> c' < c + w
           then char_at ?cols img' r' c' = 32 \<and> attr_at ?cols img' r' c' = ?a
           else char_at ?cols img' r' c' = char_at ?cols img r' c'
              \<and> attr_at ?cols img' r' c' = attr_at ?cols img r' c'"
    if on: "1 \<le> r'" "r' \<le> ?rows" "1 \<le> c'" "c' \<le> ?cols" for r' c'
  proof (cases "r \<le> r' \<and> r' < r + h \<and> c \<le> c' \<and> c' < c + w")
    case True
    then have kj: "0 \<le> r' - r" "r' - r < h" "0 \<le> c' - c" "c' - c < w" by auto
    have "screen_offset ?cols r' c' = ?p + (r' - r) * (2 * ?cols) + 2 * (c' - c)"
      using screen_offset_row [of ?cols r "r' - r" c "c' - c"] by simp
    then show ?thesis
      using True cells [OF kj] by (simp add: char_at_def attr_at_def)
  next
    case False
    have in_img: "0 \<le> screen_offset ?cols r' c'"
      "screen_offset ?cols r' c' + 1 < int (length img)"
      using cell_in_image [OF on] len by auto
    have out0: "\<forall>k. 0 \<le> k \<and> k < h \<longrightarrow>
        screen_offset ?cols r' c' < ?p + k * (2 * ?cols)
        \<or> ?p + k * (2 * ?cols) + 2 * w \<le> screen_offset ?cols r' c'"
      using cell_outside_region [of c' ?cols c w 0 r r' h] on b False by simp
    have out1: "\<forall>k. 0 \<le> k \<and> k < h \<longrightarrow>
        screen_offset ?cols r' c' + 1 < ?p + k * (2 * ?cols)
        \<or> ?p + k * (2 * ?cols) + 2 * w \<le> screen_offset ?cols r' c' + 1"
      using cell_outside_region [of c' ?cols c w 1 r r' h] on b False by simp
    show ?thesis
      unfolding if_not_P [OF False]
      using frame [OF _ _ out0] frame [OF _ _ out1] in_img
      by (simp add: char_at_def attr_at_def)
  qed
  with run r(2) show ?thesis by blast
qed


section \<open>Scrolling a region\<close>

lemma next_row:
  fixes j step :: int
  shows "p + step + j * step = p + (j + 1) * step"
  by (simp add: algebra_simps)

lemma scroll_rows_result:
  assumes inb: "\<forall>j. 0 \<le> j \<and> j < bound - i \<longrightarrow>
        0 \<le> sp + j * step \<and> sp + j * step + int len \<le> int (length img)
      \<and> 0 \<le> src + j * step \<and> src + j * step + int len \<le> int (length img)"
    and apart: "\<forall>j j'. 0 \<le> j \<and> j \<le> j' \<and> j' < bound - i \<longrightarrow>
        sp + j * step + int len \<le> src + j' * step \<or> src + j' * step + int len \<le> sp + j * step"
    and rows: "\<forall>j j'. 0 \<le> j \<and> j < j' \<and> j' < bound - i \<longrightarrow>
        sp + j * step + int len \<le> sp + j' * step \<or> sp + j' * step + int len \<le> sp + j * step"
  shows "\<exists>img'. scroll_rows img sp src step len i bound = Some img'
    \<and> length img' = length img
    \<and> (\<forall>j x. 0 \<le> j \<and> j < bound - i \<and> 0 \<le> x \<and> x < int len \<longrightarrow>
          byte_at img' (sp + j * step + x) = byte_at img (src + j * step + x))
    \<and> (\<forall>y. 0 \<le> y \<and> y < int (length img)
          \<and> (\<forall>j. 0 \<le> j \<and> j < bound - i \<longrightarrow> y < sp + j * step \<or> sp + j * step + int len \<le> y)
          \<longrightarrow> byte_at img' y = byte_at img y)"
  using assms
proof (induction img sp src step len i bound rule: scroll_rows.induct)
  case (1 img sp src step len i bound)
  note inb = "1.prems"(1) [rule_format] and apart = "1.prems"(2) [rule_format]
    and rows = "1.prems"(3) [rule_format]
  show ?case
  proof (cases "i < bound")
    case False
    then show ?thesis by (auto simp add: scroll_rows.simps)
  next
    case True
    then have z: "(0::int) \<le> 0 \<and> 0 < bound - i" by simp
    have b0: "0 \<le> sp" "sp + int len \<le> int (length img)" "0 \<le> src"
      "src + int len \<le> int (length img)"
      using inb [OF z] by simp_all
    have a0: "sp + int len \<le> src \<or> src + int len \<le> sp"
      using apart [of 0 0] True by simp
    from memcpy_in_bounds [OF b0]
    obtain img1 where m: "memcpy img sp img src len = Some img1" "length img1 = length img"
      and copy: "\<And>y. 0 \<le> y \<Longrightarrow> y < int (length img) \<Longrightarrow>
          byte_at img1 y = (if sp \<le> y \<and> y < sp + int len then byte_at img (src + (y - sp))
                            else byte_at img y)"
      by blast
    have mw: "memcpy_within img sp src len = Some img1"
      using a0 m by (simp add: memcpy_within_def)
    have inb': "\<forall>j. 0 \<le> j \<and> j < bound - (i + 1) \<longrightarrow>
        0 \<le> sp + step + j * step \<and> sp + step + j * step + int len \<le> int (length img1)
      \<and> 0 \<le> src + step + j * step \<and> src + step + j * step + int len \<le> int (length img1)"
    proof (intro allI impI)
      fix j assume "0 \<le> j \<and> j < bound - (i + 1)"
      then have "0 \<le> j + 1 \<and> j + 1 < bound - i" by arith
      from inb [OF this] show "0 \<le> sp + step + j * step
        \<and> sp + step + j * step + int len \<le> int (length img1)
        \<and> 0 \<le> src + step + j * step \<and> src + step + j * step + int len \<le> int (length img1)"
        by (simp add: next_row m(2))
    qed
    have apart': "\<forall>j j'. 0 \<le> j \<and> j \<le> j' \<and> j' < bound - (i + 1) \<longrightarrow>
        sp + step + j * step + int len \<le> src + step + j' * step
        \<or> src + step + j' * step + int len \<le> sp + step + j * step"
    proof (intro allI impI)
      fix j j' assume "0 \<le> j \<and> j \<le> j' \<and> j' < bound - (i + 1)"
      then have "0 \<le> j + 1 \<and> j + 1 \<le> j' + 1 \<and> j' + 1 < bound - i" by arith
      from apart [OF this] show "sp + step + j * step + int len \<le> src + step + j' * step
        \<or> src + step + j' * step + int len \<le> sp + step + j * step"
        by (simp add: next_row)
    qed
    have rows': "\<forall>j j'. 0 \<le> j \<and> j < j' \<and> j' < bound - (i + 1) \<longrightarrow>
        sp + step + j * step + int len \<le> sp + step + j' * step
        \<or> sp + step + j' * step + int len \<le> sp + step + j * step"
    proof (intro allI impI)
      fix j j' assume "0 \<le> j \<and> j < j' \<and> j' < bound - (i + 1)"
      then have "0 \<le> j + 1 \<and> j + 1 < j' + 1 \<and> j' + 1 < bound - i" by arith
      from rows [OF this] show "sp + step + j * step + int len \<le> sp + step + j' * step
        \<or> sp + step + j' * step + int len \<le> sp + step + j * step"
        by (simp add: next_row)
    qed
    from "1.IH" [OF True mw inb' apart' rows']
    obtain img' where r: "scroll_rows img1 (sp + step) (src + step) step len (i + 1) bound
        = Some img'" "length img' = length img"
      and cells: "\<And>j x. 0 \<le> j \<Longrightarrow> j < bound - (i + 1) \<Longrightarrow> 0 \<le> x \<Longrightarrow> x < int len \<Longrightarrow>
          byte_at img' (sp + step + j * step + x) = byte_at img1 (src + step + j * step + x)"
      and frame: "\<And>y. 0 \<le> y \<Longrightarrow> y < int (length img) \<Longrightarrow>
          (\<forall>j. 0 \<le> j \<and> j < bound - (i + 1) \<longrightarrow>
            y < sp + step + j * step \<or> sp + step + j * step + int len \<le> y) \<Longrightarrow>
          byte_at img' y = byte_at img1 y"
      using m(2) by auto
    have run: "scroll_rows img sp src step len i bound = Some img'"
      using True mw r by (subst scroll_rows.simps) simp
    have c: "byte_at img' (sp + j * step + x) = byte_at img (src + j * step + x)"
      if jx: "0 \<le> j" "j < bound - i" "0 \<le> x" "x < int len" for j x
    proof (cases "j = 0")
      case True
      have y: "0 \<le> sp + x" "sp + x < int (length img)" using b0 jx by arith+
      have "\<forall>j. 0 \<le> j \<and> j < bound - (i + 1) \<longrightarrow>
            sp + x < sp + step + j * step \<or> sp + step + j * step + int len \<le> sp + x"
      proof (intro allI impI)
        fix j' assume "0 \<le> j' \<and> j' < bound - (i + 1)"
        then have "(0::int) \<le> 0 \<and> 0 < j' + 1 \<and> j' + 1 < bound - i" by arith
        from rows [OF this] jx show "sp + x < sp + step + j' * step
          \<or> sp + step + j' * step + int len \<le> sp + x"
          by (simp add: next_row) arith
      qed
      from frame [OF y this] copy [OF y] jx True show ?thesis by simp
    next
      case False
      then have j1: "0 \<le> j - 1" "j - 1 < bound - (i + 1)" using jx by arith+
      have e: "sp + step + (j - 1) * step = sp + j * step"
        "src + step + (j - 1) * step = src + j * step"
        by (simp_all add: algebra_simps)
      have y: "0 \<le> src + j * step + x" "src + j * step + x < int (length img)"
        using inb [of j] jx by arith+
      have "(0::int) \<le> 0 \<and> 0 \<le> j \<and> j < bound - i" using jx by simp
      from apart [OF this] have "\<not> (sp \<le> src + j * step + x \<and> src + j * step + x < sp + int len)"
        using jx by simp arith
      with cells [OF j1 jx(3,4)] copy [OF y] show ?thesis
        unfolding e by simp
    qed
    have f: "byte_at img' y = byte_at img y"
      if y: "0 \<le> y" "y < int (length img)"
        "\<forall>j. 0 \<le> j \<and> j < bound - i \<longrightarrow> y < sp + j * step \<or> sp + j * step + int len \<le> y"
      for y
    proof -
      have "\<forall>j. 0 \<le> j \<and> j < bound - (i + 1) \<longrightarrow>
            y < sp + step + j * step \<or> sp + step + j * step + int len \<le> y"
      proof (intro allI impI)
        fix j assume "0 \<le> j \<and> j < bound - (i + 1)"
        then have "0 \<le> j + 1 \<and> j + 1 < bound - i" by arith
        from y(3) [rule_format, OF this]
        show "y < sp + step + j * step \<or> sp + step + j * step + int len \<le> y"
          by (simp add: next_row)
      qed
      from frame [OF y(1,2) this] have "byte_at img' y = byte_at img1 y" .
      also have "\<dots> = byte_at img y"
        using y(3) [rule_format, OF z] copy [OF y(1,2)] by simp arith
      finally show ?thesis .
    qed
    from run r(2) c f show ?thesis by blast
  qed
qed

lemma reverse_video_again: "(((a OR 0x70) AND 0xF8) OR 0x70) AND 0xF8 = (a OR 0x70) AND (0xF8::int)"
  by (rule bit_eqI) (auto simp add: bit_simps bit_0xf8 bit_0x70)

lemma convert_attribute_idempotent:
  "convert_attribute cw (convert_attribute cw a) = convert_attribute cw a"
proof (cases "cw \<or> a AND 0x70 = 0")
  case True
  then show ?thesis
    by (auto simp add: convert_attribute_def WHITE_def REV_BLACK_def REV_WHITE_def
        or_white_background or.assoc)
next
  case False
  then show ?thesis
    by (simp add: convert_attribute_def WHITE_def REV_BLACK_def REV_WHITE_def
        reverse_video_background reverse_video_again)
qed

lemma active_session_update:
  "active_session s \<Longrightarrow> screen_image s = Some img \<Longrightarrow> length img' = length img \<Longrightarrow>
   active_session (s\<lparr>screen_image := Some img'\<rparr>)"
  by (auto simp add: active_session_def allocated_def split: option.splits)

lemma active_session_int:
  assumes "active_session s"
  shows "2 * total_columns s < 2 ^ 31" and "total_rows s < 2 ^ 31"
proof -
  define T where "T = total_rows s * (2 * total_columns s)"
  from assms have g: "1 \<le> total_rows s" "1 \<le> total_columns s"
    and "total_rows s * 2 * total_columns s < 2 ^ 31"
    by (simp_all add: active_session_def)
  then have b: "T < 2 ^ 31" by (simp add: T_def mult.assoc)
  have "1 * (2 * total_columns s) \<le> T"
    unfolding T_def using g by (intro mult_right_mono) auto
  then have "2 * total_columns s \<le> T" by simp
  with b show "2 * total_columns s < 2 ^ 31" by linarith
  have "total_rows s * 1 \<le> T"
    unfolding T_def using g by (intro mult_left_mono) auto
  then have "total_rows s \<le> T" by simp
  with b show "total_rows s < 2 ^ 31" by linarith
qed

lemma to_size_t_small: "0 \<le> i \<Longrightarrow> i < 2 ^ 31 \<Longrightarrow> to_size_t i = nat i"
  by (simp add: to_size_t_def)

lemma to_unsigned_small: "0 \<le> i \<Longrightarrow> i < 2 ^ 32 \<Longrightarrow> to_unsigned i = nat i"
  by (simp add: to_unsigned_def)

lemma row_below:
  assumes "\<rho>' < \<rho>" and "0 \<le> columns" and "w \<le> columns"
  shows "screen_offset columns \<rho>' c + 2 * w \<le> screen_offset columns \<rho> c"
proof -
  define X where "X = (\<rho>' - 1) * (2 * columns)"
  define Y where "Y = (\<rho> - 1) * (2 * columns)"
  have "X + 2 * columns \<le> Y"
    unfolding X_def Y_def using assms by (intro rows_apart) auto
  moreover have "screen_offset columns \<rho>' c = X + (c - 1) * 2"
    "screen_offset columns \<rho> c = Y + (c - 1) * 2"
    by (simp_all add: screen_offset_def X_def Y_def)
  ultimately show ?thesis using assms by simp
qed

lemma scroll_rows_cells:
  assumes reg: "1 \<le> r" "1 \<le> c" "1 \<le> w" "1 \<le> h" "r + h - 1 \<le> rows" "c + w - 1 \<le> columns"
    and k: "0 < k" "k < h"
    and len: "int (length img) = rows * 2 * columns"
    and dst: "\<And>j. sp + j * step = screen_offset columns (d0 + \<sigma> * j) c"
    and src: "\<And>j. sp' + j * step = screen_offset columns (d0 + \<sigma> * j + \<sigma> * k) c"
    and sg: "\<sigma> = 1 \<or> \<sigma> = - 1"
    and d0: "\<And>j. 0 \<le> j \<Longrightarrow> j < h - k \<Longrightarrow> r \<le> d0 + \<sigma> * j \<and> d0 + \<sigma> * j < r + h
        \<and> r \<le> d0 + \<sigma> * j + \<sigma> * k \<and> d0 + \<sigma> * j + \<sigma> * k < r + h"
  shows "\<exists>img1. scroll_rows img sp sp' step (nat (2 * w)) 0 (h - k) = Some img1
    \<and> length img1 = length img
    \<and> (\<forall>r' c'. 1 \<le> r' \<and> r' \<le> rows \<and> 1 \<le> c' \<and> c' \<le> columns \<longrightarrow>
          (if (\<exists>j. 0 \<le> j \<and> j < h - k \<and> r' = d0 + \<sigma> * j) \<and> c \<le> c' \<and> c' < c + w
           then char_at columns img1 r' c' = char_at columns img (r' + \<sigma> * k) c'
              \<and> attr_at columns img1 r' c' = attr_at columns img (r' + \<sigma> * k) c'
           else char_at columns img1 r' c' = char_at columns img r' c'
              \<and> attr_at columns img1 r' c' = attr_at columns img r' c'))"
proof -
  have cols: "0 \<le> columns" "w \<le> columns" using reg by arith+
  have w2: "int (nat (2 * w)) = 2 * w" using reg by simp
  have span: "0 \<le> screen_offset columns \<rho> c
      \<and> screen_offset columns \<rho> c + 2 * w \<le> int (length img)"
    if "r \<le> \<rho>" "\<rho> < r + h" for \<rho>
    unfolding len using that reg by (intro row_span_in_image) auto
  have disjoint: "screen_offset columns \<rho> c + 2 * w \<le> screen_offset columns \<rho>' c
      \<or> screen_offset columns \<rho>' c + 2 * w \<le> screen_offset columns \<rho> c"
    if "\<rho> \<noteq> \<rho>'" for \<rho> \<rho>'
    using that row_below [of \<rho> \<rho>' columns w c] row_below [of \<rho>' \<rho> columns w c] cols
    by (cases "\<rho> < \<rho>'") auto
  have inb: "\<forall>j. 0 \<le> j \<and> j < h - k - 0 \<longrightarrow>
        0 \<le> sp + j * step \<and> sp + j * step + int (nat (2 * w)) \<le> int (length img)
      \<and> 0 \<le> sp' + j * step \<and> sp' + j * step + int (nat (2 * w)) \<le> int (length img)"
    unfolding dst src w2 using d0 span by simp
  have apart: "\<forall>j j'. 0 \<le> j \<and> j \<le> j' \<and> j' < h - k - 0 \<longrightarrow>
        sp + j * step + int (nat (2 * w)) \<le> sp' + j' * step
        \<or> sp' + j' * step + int (nat (2 * w)) \<le> sp + j * step"
    unfolding dst src w2
  proof (intro allI impI)
    fix j j' assume a: "0 \<le> j \<and> j \<le> j' \<and> j' < h - k - 0"
    have "d0 + \<sigma> * j \<noteq> d0 + \<sigma> * j' + \<sigma> * k"
      using sg a k by auto
    from disjoint [OF this]
    show "screen_offset columns (d0 + \<sigma> * j) c + 2 * w
          \<le> screen_offset columns (d0 + \<sigma> * j' + \<sigma> * k) c
      \<or> screen_offset columns (d0 + \<sigma> * j' + \<sigma> * k) c + 2 * w
          \<le> screen_offset columns (d0 + \<sigma> * j) c" .
  qed
  have rows: "\<forall>j j'. 0 \<le> j \<and> j < j' \<and> j' < h - k - 0 \<longrightarrow>
        sp + j * step + int (nat (2 * w)) \<le> sp + j' * step
        \<or> sp + j' * step + int (nat (2 * w)) \<le> sp + j * step"
    unfolding dst w2
  proof (intro allI impI)
    fix j j' assume a: "0 \<le> j \<and> j < j' \<and> j' < h - k - 0"
    have "d0 + \<sigma> * j \<noteq> d0 + \<sigma> * j'"
      using sg a by auto
    from disjoint [OF this]
    show "screen_offset columns (d0 + \<sigma> * j) c + 2 * w \<le> screen_offset columns (d0 + \<sigma> * j') c
      \<or> screen_offset columns (d0 + \<sigma> * j') c + 2 * w \<le> screen_offset columns (d0 + \<sigma> * j) c" .
  qed
  from scroll_rows_result [OF inb apart rows]
  obtain img1 where r: "scroll_rows img sp sp' step (nat (2 * w)) 0 (h - k) = Some img1"
    "length img1 = length img"
    and cells: "\<And>j x. 0 \<le> j \<Longrightarrow> j < h - k \<Longrightarrow> 0 \<le> x \<Longrightarrow> x < 2 * w \<Longrightarrow>
          byte_at img1 (screen_offset columns (d0 + \<sigma> * j) c + x)
          = byte_at img (screen_offset columns (d0 + \<sigma> * j + \<sigma> * k) c + x)"
    and frame: "\<And>y. 0 \<le> y \<Longrightarrow> y < int (length img) \<Longrightarrow>
          (\<forall>j. 0 \<le> j \<and> j < h - k \<longrightarrow> y < screen_offset columns (d0 + \<sigma> * j) c
              \<or> screen_offset columns (d0 + \<sigma> * j) c + 2 * w \<le> y) \<Longrightarrow>
          byte_at img1 y = byte_at img y"
    unfolding dst src w2 by auto
  have "if (\<exists>j. 0 \<le> j \<and> j < h - k \<and> r' = d0 + \<sigma> * j) \<and> c \<le> c' \<and> c' < c + w
           then char_at columns img1 r' c' = char_at columns img (r' + \<sigma> * k) c'
              \<and> attr_at columns img1 r' c' = attr_at columns img (r' + \<sigma> * k) c'
           else char_at columns img1 r' c' = char_at columns img r' c'
              \<and> attr_at columns img1 r' c' = attr_at columns img r' c'"
    if on: "1 \<le> r'" "r' \<le> rows" "1 \<le> c'" "c' \<le> columns" for r' c'
  proof (cases "(\<exists>j. 0 \<le> j \<and> j < h - k \<and> r' = d0 + \<sigma> * j) \<and> c \<le> c' \<and> c' < c + w")
    case True
    then obtain j where j: "0 \<le> j" "j < h - k" "r' = d0 + \<sigma> * j" by blast
    have x: "0 \<le> 2 * (c' - c)" "2 * (c' - c) < 2 * w" "0 \<le> 2 * (c' - c) + 1"
      "2 * (c' - c) + 1 < 2 * w"
      using True by arith+
    have e: "screen_offset columns \<rho> c' = screen_offset columns \<rho> c + 2 * (c' - c)" for \<rho>
      using screen_offset_row [of columns \<rho> 0 c "c' - c"] by simp
    have "char_at columns img1 r' c' = char_at columns img (r' + \<sigma> * k) c'"
      unfolding char_at_def j(3) e by (rule cells [OF j(1,2) x(1,2)])
    moreover have "attr_at columns img1 r' c' = attr_at columns img (r' + \<sigma> * k) c'"
      unfolding attr_at_def j(3) e
      by (rule cells [OF j(1,2) x(3,4), unfolded add.assoc [symmetric]])
    ultimately show ?thesis
      unfolding if_P [OF True] by (rule conjI)
  next
    case False
    have in_img: "0 \<le> screen_offset columns r' c'"
      "screen_offset columns r' c' + 1 < int (length img)"
      using cell_in_image [OF on] len by auto
    have out: "screen_offset columns r' c' + b < screen_offset columns (d0 + \<sigma> * j) c
        \<or> screen_offset columns (d0 + \<sigma> * j) c + 2 * w \<le> screen_offset columns r' c' + b"
      if "b = 0 \<or> b = 1" "0 \<le> j \<and> j < h - k" for b j
    proof -
      have "\<not> (r' = d0 + \<sigma> * j \<and> c \<le> c' \<and> c' < c + w)"
        using False that by blast
      then have "\<not> (screen_offset columns (d0 + \<sigma> * j) c \<le> screen_offset columns r' c' + b
          \<and> screen_offset columns r' c' + b < screen_offset columns (d0 + \<sigma> * j) c + 2 * w)"
        by (subst cell_in_row_span) (use on reg that in simp_all)
      then show ?thesis by arith
    qed
    have "byte_at img1 (screen_offset columns r' c') = byte_at img (screen_offset columns r' c')"
      using in_img out [of 0] by (intro frame) auto
    moreover have "byte_at img1 (screen_offset columns r' c' + 1)
        = byte_at img (screen_offset columns r' c' + 1)"
      using in_img out [of 1] by (intro frame) auto
    ultimately show ?thesis
      unfolding if_not_P [OF False] by (simp add: char_at_def attr_at_def)
  qed
  with r show ?thesis by blast
qed

lemma scroll_no_rows:
  "k \<le> 0 \<Longrightarrow> scroll s direction row column width height k attribute = Some s"
  by (simp add: scroll_def)

lemma scroll_all_rows:
  assumes "active_session s"
    and adj: "adjust_dimensions (total_rows s) (total_columns s) row column width height
        = (r, c, w, h)"
    and "h \<le> k"
  shows "scroll s direction row column width height k attribute
    = clear s row column width height attribute"
proof -
  note g = active_session_geometry [OF assms(1)]
  have gi: "total_rows s \<le> INT_MAX" "total_columns s \<le> INT_MAX"
    using g(2,4) by simp_all
  have "0 < k"
    using adjust_dimensions_positive(2) [OF g(1) gi(1) g(3) gi(2) adj] assms(3) by arith
  then show ?thesis
    using assms(3) adj adjust_dimensions_again [OF g(1) gi(1) g(3) gi(2) adj]
    by (simp add: scroll_def clear_def convert_attribute_idempotent)
qed

lemma int_mul_id: "- 2147483648 \<le> a * b \<Longrightarrow> a * b \<le> 2147483647 \<Longrightarrow> int_mul a b = a * b"
  by (simp add: int_mul_def int_wrap_id)

lemma rows_in_int:
  assumes "0 \<le> x" and "x \<le> rows" and "1 \<le> columns" and "rows * 2 * columns < 2 ^ 31"
  shows "int_mul (int_mul x 2) columns = x * 2 * columns"
proof -
  define T where "T = rows * (2 * columns)"
  define X where "X = x * 2"
  have T: "T < 2147483648" using assms(4) by (simp add: T_def mult.assoc)
  have "x * (2 * columns) \<le> T"
    unfolding T_def using assms by (intro mult_right_mono) auto
  then have c: "X * columns \<le> T" by (simp add: X_def mult.assoc)
  have X0: "0 \<le> X" using assms(1) by (simp add: X_def)
  then have "X * 1 \<le> X * columns"
    using assms(3) by (intro mult_left_mono) auto
  then have d: "X \<le> X * columns" by simp
  have p: "0 \<le> X * columns" using X0 assms(3) by simp
  have "- 2147483648 \<le> X" "X \<le> 2147483647"
    using X0 d c T by linarith+
  then have "int_mul x 2 = X"
    unfolding X_def by (rule int_mul_id)
  moreover have "int_mul X columns = X * columns"
    using p c T by (intro int_mul_id) simp_all
  ultimately show ?thesis by (simp add: X_def)
qed

lemma scroll_some_rows:
  assumes s: "active_session s" and img: "screen_image s = Some img"
    and adj: "adjust_dimensions (total_rows s) (total_columns s) row column width height
        = (r, c, w, h)"
    and fit: "sums_in_int (total_rows s) (total_columns s) row column width height"
    and k: "0 < k" "k < h"
    and blank: "blank = to_char (convert_attribute (color_works s) attribute)"
  shows "\<exists>img'. scroll s direction row column width height k attribute
        = Some (s\<lparr>screen_image := Some img'\<rparr>)
    \<and> length img' = length img
    \<and> (\<forall>r' c'. 1 \<le> r' \<and> r' \<le> total_rows s \<and> 1 \<le> c' \<and> c' \<le> total_columns s \<longrightarrow>
          cell_at (total_columns s) img' r' c' =
            (if r \<le> r' \<and> r' < r + h \<and> c \<le> c' \<and> c' < c + w then
               (if direction = UP then
                  (if r' < r + h - k then cell_at (total_columns s) img (r' + k) c'
                   else (32, blank))
                else
                  (if r + k \<le> r' then cell_at (total_columns s) img (r' - k) c'
                   else (32, blank)))
             else cell_at (total_columns s) img r' c'))"
proof -
  let ?cols = "total_columns s" and ?rows = "total_rows s"
  let ?a1 = "convert_attribute (color_works s) attribute"
  from s have g: "1 \<le> ?rows" "1 \<le> ?cols" and al: "allocated s"
    by (simp_all add: active_session_def)
  from al img have len: "int (length img) = ?rows * 2 * ?cols"
    by (auto elim: allocatedE)
  note b = adjust_dimensions_bounds [OF g adj fit]
  note geo = active_session_geometry(2,4) [OF s]
  from s have area: "?rows * 2 * ?cols < 2 ^ 31"
    by (simp add: active_session_def)
  have w2: "2 * w \<le> 2 * ?cols" using b by arith
  have wr: "int_mul 2 w = 2 * w" "int_sub h k = h - k"
    "int_add r (h - k) = r + (h - k)" "int_sub (int_add (int_sub r 1) h) 1 = r + h - 2"
    "int_mul (int_mul k 2) ?cols = k * 2 * ?cols"
    "int_mul (int_mul (r + h - 2) 2) ?cols = (r + h - 2) * 2 * ?cols"
  proof -
    show "int_mul 2 w = 2 * w"
      using b w2 active_session_int(1) [OF s] by (intro int_mul_id) simp_all
    show "int_sub h k = h - k" "int_add r (h - k) = r + (h - k)"
      "int_sub (int_add (int_sub r 1) h) 1 = r + h - 2"
      using b k geo by (simp_all add: int_add_def int_sub_def int_wrap_id INT_MAX_def)
    show "int_mul (int_mul k 2) ?cols = k * 2 * ?cols"
      using b k g area by (intro rows_in_int [of k ?rows]) simp_all
    show "int_mul (int_mul (r + h - 2) 2) ?cols = (r + h - 2) * 2 * ?cols"
      using b g area by (intro rows_in_int [of _ ?rows]) simp_all
  qed
  have sz: "to_size_t (2 * w) = nat (2 * w)"
    using b w2 active_session_int(1) [OF s] by (intro to_size_t_small) arith+
  have bl: "to_char (convert_attribute (color_works s) ?a1) = blank"
    by (simp add: blank convert_attribute_idempotent)
  show ?thesis
  proof (cases "direction = UP")
    case True
    let ?sp = "screen_offset ?cols r c"
    have dst: "?sp + j * (2 * ?cols) = screen_offset ?cols (r + 1 * j) c" for j
      using screen_offset_row [of ?cols r j c 0] by simp
    have src: "?sp + k * 2 * ?cols + j * (2 * ?cols) = screen_offset ?cols (r + 1 * j + 1 * k) c"
      for j
      using screen_offset_row [of ?cols r "j + k" c 0] by (simp add: algebra_simps)
    have d0: "r \<le> r + 1 * j \<and> r + 1 * j < r + h \<and> r \<le> r + 1 * j + 1 * k
        \<and> r + 1 * j + 1 * k < r + h" if "0 \<le> j" "j < h - k" for j
      using that k by simp
    from scroll_rows_cells [OF b(1,3,5,6,7,8) k len dst src _ d0]
    obtain img1 where r1: "scroll_rows img ?sp (?sp + k * 2 * ?cols) (2 * ?cols) (nat (2 * w)) 0
        (h - k) = Some img1" "length img1 = length img"
      and c1: "\<And>r' c'. 1 \<le> r' \<Longrightarrow> r' \<le> ?rows \<Longrightarrow> 1 \<le> c' \<Longrightarrow> c' \<le> ?cols \<Longrightarrow>
          (if (\<exists>j. 0 \<le> j \<and> j < h - k \<and> r' = r + 1 * j) \<and> c \<le> c' \<and> c' < c + w
           then char_at ?cols img1 r' c' = char_at ?cols img (r' + 1 * k) c'
              \<and> attr_at ?cols img1 r' c' = attr_at ?cols img (r' + 1 * k) c'
           else char_at ?cols img1 r' c' = char_at ?cols img r' c'
              \<and> attr_at ?cols img1 r' c' = attr_at ?cols img r' c')"
      by auto
    let ?s1 = "s\<lparr>screen_image := Some img1\<rparr>"
    have s1: "active_session ?s1" "screen_image ?s1 = Some img1"
      using active_session_update [OF s img r1(2)] by simp_all
    have adj1: "adjust_dimensions (total_rows ?s1) (total_columns ?s1) (r + (h - k)) c w k
        = (r + (h - k), c, w, k)"
      and fit1: "sums_in_int (total_rows ?s1) (total_columns ?s1) (r + (h - k)) c w k"
      using b k geo by (simp_all add: adjust_dimensions_on_screen)
    have fs: "total_columns ?s1 = ?cols" "total_rows ?s1 = ?rows"
      "color_works ?s1 = color_works s" "\<And>x. ?s1\<lparr>screen_image := x\<rparr> = s\<lparr>screen_image := x\<rparr>"
      by simp_all
    from clear_on_screen [OF s1 adj1 fit1, of ?a1, unfolded fs bl]
    obtain img2 where r2: "clear ?s1 (r + (h - k)) c w k ?a1 = Some (s\<lparr>screen_image := Some img2\<rparr>)"
      "length img2 = length img"
      and c2: "\<And>r' c'. 1 \<le> r' \<Longrightarrow> r' \<le> ?rows \<Longrightarrow> 1 \<le> c' \<Longrightarrow> c' \<le> ?cols \<Longrightarrow>
          (if r + (h - k) \<le> r' \<and> r' < r + (h - k) + k \<and> c \<le> c' \<and> c' < c + w
           then char_at ?cols img2 r' c' = 32 \<and> attr_at ?cols img2 r' c' = blank
           else char_at ?cols img2 r' c' = char_at ?cols img1 r' c'
              \<and> attr_at ?cols img2 r' c' = attr_at ?cols img1 r' c')"
      using r1(2) by auto
    have run: "scroll s direction row column width height k attribute
        = Some (s\<lparr>screen_image := Some img2\<rparr>)"
      using True k adj img r1(1) r2(1) by (simp add: scroll_def wr sz Let_def)
    have "cell_at ?cols img2 r' c' =
            (if r \<le> r' \<and> r' < r + h \<and> c \<le> c' \<and> c' < c + w then
               (if direction = UP then
                  (if r' < r + h - k then cell_at ?cols img (r' + k) c' else (32, blank))
                else
                  (if r + k \<le> r' then cell_at ?cols img (r' - k) c' else (32, blank)))
             else cell_at ?cols img r' c')"
      if on: "1 \<le> r'" "r' \<le> ?rows" "1 \<le> c'" "c' \<le> ?cols" for r' c'
    proof -
      have ex: "(\<exists>j. 0 \<le> j \<and> j < h - k \<and> r' = r + 1 * j) \<longleftrightarrow> r \<le> r' \<and> r' < r + h - k"
      proof
        assume "r \<le> r' \<and> r' < r + h - k"
        then have "0 \<le> r' - r \<and> r' - r < h - k \<and> r' = r + 1 * (r' - r)" by simp
        then show "\<exists>j. 0 \<le> j \<and> j < h - k \<and> r' = r + 1 * j" by blast
      qed auto
      show ?thesis
        using c1 [OF on] c2 [OF on] True k unfolding ex
        by (auto simp add: cell_at_def)
    qed
    with run r2(2) show ?thesis by blast
  next
    case False
    let ?sp = "(r - 1 + h - 1) * 2 * ?cols + (c - 1) * 2"
    have dst: "?sp + j * (- (2 * ?cols)) = screen_offset ?cols (r + h - 1 + - 1 * j) c" for j
      by (simp add: screen_offset_def algebra_simps)
    have src: "?sp - k * 2 * ?cols + j * (- (2 * ?cols))
        = screen_offset ?cols (r + h - 1 + - 1 * j + - 1 * k) c" for j
      by (simp add: screen_offset_def algebra_simps)
    have d0: "r \<le> r + h - 1 + - 1 * j \<and> r + h - 1 + - 1 * j < r + h
        \<and> r \<le> r + h - 1 + - 1 * j + - 1 * k \<and> r + h - 1 + - 1 * j + - 1 * k < r + h"
      if "0 \<le> j" "j < h - k" for j
      using that k by simp
    from scroll_rows_cells [OF b(1,3,5,6,7,8) k len dst src _ d0]
    obtain img1 where r1: "scroll_rows img ?sp (?sp - k * 2 * ?cols) (- (2 * ?cols))
        (nat (2 * w)) 0 (h - k) = Some img1" "length img1 = length img"
      and c1: "\<And>r' c'. 1 \<le> r' \<Longrightarrow> r' \<le> ?rows \<Longrightarrow> 1 \<le> c' \<Longrightarrow> c' \<le> ?cols \<Longrightarrow>
          (if (\<exists>j. 0 \<le> j \<and> j < h - k \<and> r' = r + h - 1 + - 1 * j) \<and> c \<le> c' \<and> c' < c + w
           then char_at ?cols img1 r' c' = char_at ?cols img (r' + - 1 * k) c'
              \<and> attr_at ?cols img1 r' c' = attr_at ?cols img (r' + - 1 * k) c'
           else char_at ?cols img1 r' c' = char_at ?cols img r' c'
              \<and> attr_at ?cols img1 r' c' = attr_at ?cols img r' c')"
      by auto
    let ?s1 = "s\<lparr>screen_image := Some img1\<rparr>"
    have s1: "active_session ?s1" "screen_image ?s1 = Some img1"
      using active_session_update [OF s img r1(2)] by simp_all
    have adj1: "adjust_dimensions (total_rows ?s1) (total_columns ?s1) r c w k = (r, c, w, k)"
      and fit1: "sums_in_int (total_rows ?s1) (total_columns ?s1) r c w k"
      using b k geo by (simp_all add: adjust_dimensions_on_screen)
    have fs: "total_columns ?s1 = ?cols" "total_rows ?s1 = ?rows"
      "color_works ?s1 = color_works s" "\<And>x. ?s1\<lparr>screen_image := x\<rparr> = s\<lparr>screen_image := x\<rparr>"
      by simp_all
    from clear_on_screen [OF s1 adj1 fit1, of ?a1, unfolded fs bl]
    obtain img2 where r2: "clear ?s1 r c w k ?a1 = Some (s\<lparr>screen_image := Some img2\<rparr>)"
      "length img2 = length img"
      and c2: "\<And>r' c'. 1 \<le> r' \<Longrightarrow> r' \<le> ?rows \<Longrightarrow> 1 \<le> c' \<Longrightarrow> c' \<le> ?cols \<Longrightarrow>
          (if r \<le> r' \<and> r' < r + k \<and> c \<le> c' \<and> c' < c + w
           then char_at ?cols img2 r' c' = 32 \<and> attr_at ?cols img2 r' c' = blank
           else char_at ?cols img2 r' c' = char_at ?cols img1 r' c'
              \<and> attr_at ?cols img2 r' c' = attr_at ?cols img1 r' c')"
      using r1(2) by auto
    have run: "scroll s direction row column width height k attribute
        = Some (s\<lparr>screen_image := Some img2\<rparr>)"
      using False k adj img r1(1) r2(1) by (simp add: scroll_def wr sz Let_def)
    have "cell_at ?cols img2 r' c' =
            (if r \<le> r' \<and> r' < r + h \<and> c \<le> c' \<and> c' < c + w then
               (if direction = UP then
                  (if r' < r + h - k then cell_at ?cols img (r' + k) c' else (32, blank))
                else
                  (if r + k \<le> r' then cell_at ?cols img (r' - k) c' else (32, blank)))
             else cell_at ?cols img r' c')"
      if on: "1 \<le> r'" "r' \<le> ?rows" "1 \<le> c'" "c' \<le> ?cols" for r' c'
    proof -
      have ex: "(\<exists>j. 0 \<le> j \<and> j < h - k \<and> r' = r + h - 1 + - 1 * j)
          \<longleftrightarrow> r + k \<le> r' \<and> r' < r + h"
      proof
        assume "r + k \<le> r' \<and> r' < r + h"
        then have "0 \<le> r + h - 1 - r' \<and> r + h - 1 - r' < h - k
            \<and> r' = r + h - 1 + - 1 * (r + h - 1 - r')" by simp
        then show "\<exists>j. 0 \<le> j \<and> j < h - k \<and> r' = r + h - 1 + - 1 * j" by blast
      qed auto
      show ?thesis
        using c1 [OF on] c2 [OF on] False k unfolding ex
        by (auto simp add: cell_at_def)
    qed
    with run r2(2) show ?thesis by blast
  qed
qed


section \<open>Writing and reading a region\<close>

lemma write_rows_result:
  assumes "0 \<le> p" and "int len \<le> stride"
    and "n = 0 \<or> p + (int n - 1) * stride + int len \<le> int (length img)"
    and "0 \<le> bp" and "bp + int n * int len \<le> int (length buffer)"
  shows "\<exists>img'. write_rows img p stride len buffer bp n = Some img' \<and> length img' = length img
    \<and> (\<forall>k x. 0 \<le> k \<and> k < int n \<and> 0 \<le> x \<and> x < int len \<longrightarrow>
          byte_at img' (p + k * stride + x) = byte_at buffer (bp + k * int len + x))
    \<and> (\<forall>y. 0 \<le> y \<and> y < int (length img)
          \<and> (\<forall>k. 0 \<le> k \<and> k < int n \<longrightarrow> y < p + k * stride \<or> p + k * stride + int len \<le> y)
          \<longrightarrow> byte_at img' y = byte_at img y)"
  using assms
proof (induction n arbitrary: img p bp)
  case 0
  then show ?case by auto
next
  case (Suc n)
  have S: "0 \<le> stride" using Suc.prems by arith
  have hs: "0 \<le> int n * stride" "0 \<le> int n * int len" using S by simp_all
  have last: "p + int n * stride + int len \<le> int (length img)"
    using Suc.prems(3) by simp
  have blast: "bp + int len + int n * int len \<le> int (length buffer)"
    using Suc.prems(5) by (simp add: algebra_simps)
  have first: "p + int len \<le> int (length img)" "bp + int len \<le> int (length buffer)"
    using last blast hs by arith+
  from memcpy_in_bounds [OF Suc.prems(1) first(1) Suc.prems(4) first(2)]
  obtain img1 where r1: "memcpy img p buffer bp len = Some img1" "length img1 = length img"
    and copy: "\<And>y. 0 \<le> y \<Longrightarrow> y < int (length img) \<Longrightarrow>
          byte_at img1 y = (if p \<le> y \<and> y < p + int len then byte_at buffer (bp + (y - p))
                            else byte_at img y)"
    by blast
  have pre: "n = 0 \<or> p + stride + (int n - 1) * stride + int len \<le> int (length img1)"
    using last r1(2) by (simp add: row_step)
  have "0 \<le> p + stride" "0 \<le> bp + int len" using Suc.prems S by arith+
  from Suc.IH [OF this(1) Suc.prems(2) pre this(2) blast]
  obtain img' where r: "write_rows img1 (p + stride) stride len buffer (bp + int len) n = Some img'"
    "length img' = length img"
    and cells: "\<And>k x. 0 \<le> k \<Longrightarrow> k < int n \<Longrightarrow> 0 \<le> x \<Longrightarrow> x < int len \<Longrightarrow>
          byte_at img' (p + stride + k * stride + x)
          = byte_at buffer (bp + int len + k * int len + x)"
    and frame: "\<And>y. 0 \<le> y \<Longrightarrow> y < int (length img) \<Longrightarrow>
          (\<forall>k. 0 \<le> k \<and> k < int n \<longrightarrow>
            y < p + stride + k * stride \<or> p + stride + k * stride + int len \<le> y) \<Longrightarrow>
          byte_at img' y = byte_at img1 y"
    using r1(2) by auto
  have run: "write_rows img p stride len buffer bp (Suc n) = Some img'"
    using r1 r by simp
  have below: "y < p + stride + k * stride" if "y < p + int len" "0 \<le> k" for y k
  proof -
    have "0 \<le> k * stride" using that S by simp
    with that Suc.prems show ?thesis by arith
  qed
  have c: "byte_at img' (p + k * stride + x) = byte_at buffer (bp + k * int len + x)"
    if kx: "0 \<le> k" "k < int (Suc n)" "0 \<le> x" "x < int len" for k x
  proof (cases "k = 0")
    case True
    have in0: "0 \<le> p + x" "p + x < int (length img)"
      using kx first Suc.prems by arith+
    have out: "\<forall>k. 0 \<le> k \<and> k < int n \<longrightarrow>
        p + x < p + stride + k * stride \<or> p + stride + k * stride + int len \<le> p + x"
      using below [of "p + x"] kx by auto
    from frame [OF in0 out] copy [OF in0] kx True show ?thesis by simp
  next
    case False
    then have k1: "0 \<le> k - 1" "k - 1 < int n" using kx by auto
    have "bp + int len + (k - 1) * int len = bp + k * int len"
      by (simp add: algebra_simps)
    with cells [OF k1 kx(3,4)] show ?thesis by (simp add: row_step)
  qed
  have f: "byte_at img' y = byte_at img y"
    if y: "0 \<le> y" "y < int (length img)"
      "\<forall>k. 0 \<le> k \<and> k < int (Suc n) \<longrightarrow> y < p + k * stride \<or> p + k * stride + int len \<le> y"
    for y
  proof -
    have "y < p + stride + k * stride \<or> p + stride + k * stride + int len \<le> y"
      if "0 \<le> k \<and> k < int n" for k
      using y(3) [rule_format, of "k + 1"] that by (simp add: algebra_simps)
    then have "byte_at img' y = byte_at img1 y"
      using y by (intro frame) auto
    also have "\<dots> = byte_at img y"
      using y(3) [rule_format, of 0] copy [OF y(1,2)] by auto
    finally show ?thesis .
  qed
  from run r(2) c f show ?case by blast
qed

lemma read_rows_result:
  assumes "0 \<le> p" and "0 \<le> stride"
    and "n = 0 \<or> p + (int n - 1) * stride + int len \<le> int (length img)"
    and "0 \<le> bp" and "bp + int n * int len \<le> int (length buffer)"
  shows "\<exists>buffer'. read_rows img p stride len buffer bp n = Some buffer'
    \<and> length buffer' = length buffer
    \<and> (\<forall>k x. 0 \<le> k \<and> k < int n \<and> 0 \<le> x \<and> x < int len \<longrightarrow>
          byte_at buffer' (bp + k * int len + x) = byte_at img (p + k * stride + x))
    \<and> (\<forall>y. 0 \<le> y \<and> y < int (length buffer) \<and> (y < bp \<or> bp + int n * int len \<le> y)
          \<longrightarrow> byte_at buffer' y = byte_at buffer y)"
  using assms
proof (induction n arbitrary: buffer p bp)
  case 0
  then show ?case by auto
next
  case (Suc n)
  note S = Suc.prems(2)
  have hs: "0 \<le> int n * stride" "0 \<le> int n * int len" using S by simp_all
  have last: "p + int n * stride + int len \<le> int (length img)"
    using Suc.prems(3) by simp
  have blast: "bp + int len + int n * int len \<le> int (length buffer)"
    using Suc.prems(5) by (simp add: algebra_simps)
  have first: "p + int len \<le> int (length img)" "bp + int len \<le> int (length buffer)"
    using last blast hs by arith+
  from memcpy_in_bounds [OF Suc.prems(4) first(2) Suc.prems(1) first(1)]
  obtain buf1 where r1: "memcpy buffer bp img p len = Some buf1" "length buf1 = length buffer"
    and copy: "\<And>y. 0 \<le> y \<Longrightarrow> y < int (length buffer) \<Longrightarrow>
          byte_at buf1 y = (if bp \<le> y \<and> y < bp + int len then byte_at img (p + (y - bp))
                            else byte_at buffer y)"
    by blast
  have pre: "n = 0 \<or> p + stride + (int n - 1) * stride + int len \<le> int (length img)"
    using last by (simp add: row_step)
  have blast1: "bp + int len + int n * int len \<le> int (length buf1)"
    using blast r1(2) by simp
  have "0 \<le> p + stride" "0 \<le> bp + int len" using Suc.prems S by arith+
  from Suc.IH [OF this(1) S pre this(2) blast1]
  obtain buf' where r: "read_rows img (p + stride) stride len buf1 (bp + int len) n = Some buf'"
    "length buf' = length buffer"
    and cells: "\<And>k x. 0 \<le> k \<Longrightarrow> k < int n \<Longrightarrow> 0 \<le> x \<Longrightarrow> x < int len \<Longrightarrow>
          byte_at buf' (bp + int len + k * int len + x)
          = byte_at img (p + stride + k * stride + x)"
    and frame: "\<And>y. 0 \<le> y \<Longrightarrow> y < int (length buffer) \<Longrightarrow>
          y < bp + int len \<or> bp + int len + int n * int len \<le> y \<Longrightarrow>
          byte_at buf' y = byte_at buf1 y"
    using r1(2) by auto
  have run: "read_rows img p stride len buffer bp (Suc n) = Some buf'"
    using r1 r by simp
  have c: "byte_at buf' (bp + k * int len + x) = byte_at img (p + k * stride + x)"
    if kx: "0 \<le> k" "k < int (Suc n)" "0 \<le> x" "x < int len" for k x
  proof (cases "k = 0")
    case True
    have in0: "0 \<le> bp + x" "bp + x < int (length buffer)"
      using kx first Suc.prems by arith+
    have "bp + x < bp + int len \<or> bp + int len + int n * int len \<le> bp + x"
      using kx by simp
    from frame [OF in0 this] copy [OF in0] kx True show ?thesis by simp
  next
    case False
    then have k1: "0 \<le> k - 1" "k - 1 < int n" using kx by auto
    have "bp + int len + (k - 1) * int len = bp + k * int len"
      by (simp add: algebra_simps)
    with cells [OF k1 kx(3,4)] show ?thesis by (simp add: row_step)
  qed
  have f: "byte_at buf' y = byte_at buffer y"
    if y: "0 \<le> y" "y < int (length buffer)" "y < bp \<or> bp + int (Suc n) * int len \<le> y" for y
  proof -
    have e: "int (Suc n) * int len = int len + int n * int len"
      by (simp add: algebra_simps)
    have "y < bp + int len \<or> bp + int len + int n * int len \<le> y"
      using y(3) unfolding e by arith
    from frame [OF y(1,2) this] have "byte_at buf' y = byte_at buf1 y" .
    also have "\<dots> = byte_at buffer y"
    proof -
      have "\<not> (bp \<le> y \<and> y < bp + int len)"
        using y(3) hs(2) unfolding e by arith
      then show ?thesis unfolding copy [OF y(1,2)] by (rule if_not_P)
    qed
    finally show ?thesis .
  qed
  from run r(2) c f show ?case by blast
qed

lemma rows_of_bytes_equal:
  assumes "length xs = n * len" and "length ys = n * len"
    and "\<And>k x. 0 \<le> k \<Longrightarrow> k < int n \<Longrightarrow> 0 \<le> x \<Longrightarrow> x < int len \<Longrightarrow>
          byte_at xs (k * int len + x) = byte_at ys (k * int len + x)"
  shows "xs = ys"
proof (rule nth_equalityI)
  show "length xs = length ys" using assms by simp
  fix i assume i: "i < length xs"
  then have "0 < len" using assms(1) by (cases len) auto
  have k: "i div len < n"
    using i assms(1) by (simp add: less_mult_imp_div_less)
  have x: "i mod len < len" using \<open>0 < len\<close> by simp
  have e: "int (i div len) * int len + int (i mod len) = int i"
    by (simp add: of_nat_mult [symmetric] of_nat_add [symmetric] del: of_nat_mult of_nat_add)
  from assms(3) [of "int (i div len)" "int (i mod len)"] k x
  show "xs ! i = ys ! i"
    unfolding e by (simp add: byte_at_def)
qed

lemma write_read_rows:
  assumes s: "active_session s" and img: "screen_image s = Some img"
    and on: "adjust_dimensions (total_rows s) (total_columns s) row column width height
        = (row, column, width, height)"
    and nov: "sums_in_int (total_rows s) (total_columns s) row column width height"
    and B: "int (length B) = 2 * width * height" and B2: "length B2 = length B"
  shows "\<exists>img'. write_scr s row column width height B = Some (s\<lparr>screen_image := Some img'\<rparr>)
    \<and> length img' = length img
    \<and> read (s\<lparr>screen_image := Some img'\<rparr>) row column width height B2 = Some B"
proof -
  let ?cols = "total_columns s" and ?rows = "total_rows s"
  let ?p = "screen_offset ?cols row column"
  let ?len = "nat (2 * width)" and ?n = "nat height"
  from s have g: "1 \<le> ?rows" "1 \<le> ?cols" and al: "allocated s"
    by (simp_all add: active_session_def)
  from al img have len: "int (length img) = ?rows * 2 * ?cols"
    by (auto elim: allocatedE)
  note b = adjust_dimensions_bounds [OF g on nov]
  have w2: "2 * width \<le> 2 * ?cols" "height \<le> ?rows" using b by arith+
  have u: "to_unsigned (2 * width) = ?len" "to_unsigned height = ?n"
    using b w2 active_session_int [OF s] by (auto intro!: to_unsigned_small)
  have il: "int ?len = 2 * width" "int ?n = height" using b by simp_all
  have p0: "0 \<le> ?p"
    using region_in_image(1) [of row column width height ?rows ?cols 0] b by simp
  have st: "int ?len \<le> 2 * ?cols" using w2 il by simp
  have last: "?n = 0 \<or> ?p + (int ?n - 1) * (2 * ?cols) + int ?len \<le> int (length img)"
    using region_in_image(2) [of row column width height ?rows ?cols "height - 1"] b len il
    by simp
  have fit: "0 + int ?n * int ?len \<le> int (length B)"
    unfolding il B by (simp add: algebra_simps)
  from write_rows_result [OF p0 st last _ fit]
  obtain img' where w: "write_rows img ?p (2 * ?cols) ?len B 0 ?n = Some img'"
    "length img' = length img"
    and wc: "\<And>k x. 0 \<le> k \<Longrightarrow> k < int ?n \<Longrightarrow> 0 \<le> x \<Longrightarrow> x < int ?len \<Longrightarrow>
          byte_at img' (?p + k * (2 * ?cols) + x) = byte_at B (k * int ?len + x)"
    by auto
  have run: "write_scr s row column width height B = Some (s\<lparr>screen_image := Some img'\<rparr>)"
    using on img w by (simp add: write_scr_def u)
  have last': "?n = 0 \<or> ?p + (int ?n - 1) * (2 * ?cols) + int ?len \<le> int (length img')"
    using last w(2) by simp
  have fit2: "0 + int ?n * int ?len \<le> int (length B2)"
    using fit B2 by simp
  have S: "0 \<le> 2 * ?cols" using g by simp
  from read_rows_result [OF p0 S last' _ fit2]
  obtain buf' where r: "read_rows img' ?p (2 * ?cols) ?len B2 0 ?n = Some buf'"
    "length buf' = length B2"
    and rc: "\<And>k x. 0 \<le> k \<Longrightarrow> k < int ?n \<Longrightarrow> 0 \<le> x \<Longrightarrow> x < int ?len \<Longrightarrow>
          byte_at buf' (k * int ?len + x) = byte_at img' (?p + k * (2 * ?cols) + x)"
    by auto
  have nl: "length B = ?n * ?len"
  proof -
    have "int (length B) = int (?n * ?len)"
      unfolding of_nat_mult il B by (simp add: algebra_simps)
    then show ?thesis by (simp only: of_nat_eq_iff)
  qed
  have eq: "byte_at buf' (k * int ?len + x) = byte_at B (k * int ?len + x)"
    if "0 \<le> k" "k < int ?n" "0 \<le> x" "x < int ?len" for k x
    using rc [OF that] wc [OF that] by (simp only:)
  have nl': "length buf' = ?n * ?len" using r(2) B2 nl by (simp only:)
  have "buf' = B"
    by (rule rows_of_bytes_equal [OF nl' nl eq])
  then have "read (s\<lparr>screen_image := Some img'\<rparr>) row column width height B2 = Some B"
    using on r(1) by (simp add: read_def u)
  with run w(2) show ?thesis by blast
qed


section \<open>Every mutation succeeds on an active session\<close>

lemma write_scr_succeeds:
  assumes s: "active_session s" and img: "screen_image s = Some img"
    and adj: "adjust_dimensions (total_rows s) (total_columns s) row column width height
        = (r, c, w, h)"
    and nov: "sums_in_int (total_rows s) (total_columns s) row column width height"
    and B: "2 * w * h \<le> int (length B)"
  shows "\<exists>img'. write_scr s row column width height B = Some (s\<lparr>screen_image := Some img'\<rparr>)
    \<and> length img' = length img"
proof -
  let ?cols = "total_columns s" and ?rows = "total_rows s"
  let ?p = "screen_offset ?cols r c"
  let ?len = "nat (2 * w)" and ?n = "nat h"
  from s have g: "1 \<le> ?rows" "1 \<le> ?cols" and al: "allocated s"
    by (simp_all add: active_session_def)
  from al img have len: "int (length img) = ?rows * 2 * ?cols"
    by (auto elim: allocatedE)
  note b = adjust_dimensions_bounds [OF g adj nov]
  have w2: "2 * w \<le> 2 * ?cols" "h \<le> ?rows" using b by arith+
  have u: "to_unsigned (2 * w) = ?len" "to_unsigned h = ?n"
    using b w2 active_session_int [OF s] by (auto intro!: to_unsigned_small)
  have il: "int ?len = 2 * w" "int ?n = h" using b by simp_all
  have p0: "0 \<le> ?p"
    using region_in_image(1) [of r c w h ?rows ?cols 0] b by simp
  have st: "int ?len \<le> 2 * ?cols" using w2 il by simp
  have last: "?n = 0 \<or> ?p + (int ?n - 1) * (2 * ?cols) + int ?len \<le> int (length img)"
    using region_in_image(2) [of r c w h ?rows ?cols "h - 1"] b len il
    by simp
  have fit: "0 + int ?n * int ?len \<le> int (length B)"
    unfolding il using B by (simp add: algebra_simps)
  from write_rows_result [OF p0 st last _ fit]
  obtain img' where w: "write_rows img ?p (2 * ?cols) ?len B 0 ?n = Some img'"
    "length img' = length img"
    by auto
  have "write_scr s row column width height B = Some (s\<lparr>screen_image := Some img'\<rparr>)"
    using adj img w by (simp add: write_scr_def u)
  with w(2) show ?thesis by blast
qed

lemma write_text_cells_succeeds:
  assumes "0 \<le> d" and "i \<le> width" and "d + 2 * (width - i) \<le> int (length img)"
    and "0 \<le> bp" and "bp + (width - i) \<le> int (length buffer)"
  shows "\<exists>img'. write_text_cells img d buffer bp i width = Some (img', bp + (width - i))
    \<and> length img' = length img"
  using assms
proof (induction img d buffer bp i width rule: write_text_cells.induct)
  case (1 img d buffer bp i width)
  show ?case
  proof (cases "i < width")
    case False
    with "1.prems" have "i = width" by simp
    then show ?thesis by (simp add: write_text_cells.simps)
  next
    case True
    have pk: "peek buffer bp = Some (byte_at buffer bp)"
      using "1.prems" True by (intro peek_in_bounds) arith+
    have po: "poke img d (byte_at buffer bp) = Some (img[nat d := byte_at buffer bp])"
      using "1.prems" True by (intro poke_in_bounds) arith+
    have "\<exists>img'. write_text_cells (img[nat d := byte_at buffer bp]) (d + 2) buffer (bp + 1)
        (i + 1) width = Some (img', bp + 1 + (width - (i + 1)))
      \<and> length img' = length (img[nat d := byte_at buffer bp])"
      using "1.prems" True by (intro "1.IH" [OF True pk po]) auto
    then show ?thesis
      using True pk po by (subst write_text_cells.simps) auto
  qed
qed

lemma write_text_rows_succeeds:
  assumes "0 \<le> p" and "0 \<le> stride" and "0 \<le> width"
    and "n = 0 \<or> p + (int n - 1) * stride + 2 * width \<le> int (length img)"
    and "0 \<le> bp" and "bp + int n * width \<le> int (length buffer)"
  shows "\<exists>img'. write_text_rows img p stride buffer bp width n = Some img'
    \<and> length img' = length img"
  using assms
proof (induction n arbitrary: img p bp)
  case 0
  then show ?case by simp
next
  case (Suc n)
  have hs: "0 \<le> int n * stride" "0 \<le> int n * width" using Suc.prems by simp_all
  have last: "p + int n * stride + 2 * width \<le> int (length img)"
    using Suc.prems(4) by simp
  have blast: "bp + width + int n * width \<le> int (length buffer)"
    using Suc.prems(6) by (simp add: algebra_simps)
  have first: "p + 2 * (width - 0) \<le> int (length img)" "bp + (width - 0) \<le> int (length buffer)"
    using last blast hs by arith+
  from write_text_cells_succeeds [OF Suc.prems(1) Suc.prems(3) first(1) Suc.prems(5) first(2)]
  obtain img1 where r1: "write_text_cells img p buffer bp 0 width = Some (img1, bp + width)"
    "length img1 = length img"
    by auto
  have pre: "n = 0 \<or> p + stride + (int n - 1) * stride + 2 * width \<le> int (length img1)"
    using last r1(2) by (simp add: row_step)
  have "0 \<le> p + stride" "0 \<le> bp + width" using Suc.prems by arith+
  from Suc.IH [OF this(1) Suc.prems(2,3) pre this(2) blast] r1
  show ?case by simp
qed

lemma write_text_succeeds:
  assumes s: "active_session s" and img: "screen_image s = Some img"
    and adj: "adjust_dimensions (total_rows s) (total_columns s) row column width height
        = (r, c, w, h)"
    and nov: "sums_in_int (total_rows s) (total_columns s) row column width height"
    and B: "w * h \<le> int (length B)"
  shows "\<exists>img'. write_text s row column width height B = Some (s\<lparr>screen_image := Some img'\<rparr>)
    \<and> length img' = length img"
proof -
  let ?cols = "total_columns s" and ?rows = "total_rows s"
  let ?p = "screen_offset ?cols r c"
  from s have g: "1 \<le> ?rows" "1 \<le> ?cols" and al: "allocated s"
    by (simp_all add: active_session_def)
  from al img have len: "int (length img) = ?rows * 2 * ?cols"
    by (auto elim: allocatedE)
  note b = adjust_dimensions_bounds [OF g adj nov]
  have il: "int (nat h) = h" using b by simp
  have p0: "0 \<le> ?p"
    using region_in_image(1) [of r c w h ?rows ?cols 0] b by simp
  have S: "0 \<le> 2 * ?cols" "0 \<le> w" using g b by simp_all
  have last: "nat h = 0 \<or> ?p + (int (nat h) - 1) * (2 * ?cols) + 2 * w \<le> int (length img)"
    using region_in_image(2) [of r c w h ?rows ?cols "h - 1"] b len il by simp
  have fit: "0 + int (nat h) * w \<le> int (length B)"
    unfolding il using B by (simp add: algebra_simps)
  from write_text_rows_succeeds [OF p0 S last _ fit]
  obtain img' where w: "write_text_rows img ?p (2 * ?cols) B 0 w (nat h) = Some img'"
    "length img' = length img"
    by auto
  have "write_text s row column width height B = Some (s\<lparr>screen_image := Some img'\<rparr>)"
    using adj img w by (simp add: write_text_def)
  with w(2) show ?thesis by blast
qed

lemma set_color_cells_succeeds:
  assumes "0 \<le> d" and "i \<le> width" and "d + 2 * (width - i) \<le> int (length img)"
  shows "\<exists>img'. set_color_cells img d i width a = Some img' \<and> length img' = length img"
  using assms
proof (induction img d i width a rule: set_color_cells.induct)
  case (1 img d i width a)
  show ?case
  proof (cases "i < width")
    case False
    then show ?thesis by (simp add: set_color_cells.simps)
  next
    case True
    have po: "poke img (d + 1) a = Some (img[nat (d + 1) := a])"
      using "1.prems" True by (intro poke_in_bounds) arith+
    have "\<exists>img'. set_color_cells (img[nat (d + 1) := a]) (d + 2) (i + 1) width a = Some img'
      \<and> length img' = length (img[nat (d + 1) := a])"
      using "1.prems" True by (intro "1.IH" [OF True po]) auto
    then show ?thesis
      using True po by (subst set_color_cells.simps) auto
  qed
qed

lemma set_color_rows_succeeds:
  assumes "0 \<le> p" and "0 \<le> stride" and "0 \<le> width"
    and "n = 0 \<or> p + (int n - 1) * stride + 2 * width \<le> int (length img)"
  shows "\<exists>img'. set_color_rows img p stride width a n = Some img' \<and> length img' = length img"
  using assms
proof (induction n arbitrary: img p)
  case 0
  then show ?case by simp
next
  case (Suc n)
  have hs: "0 \<le> int n * stride" using Suc.prems by simp
  have last: "p + int n * stride + 2 * width \<le> int (length img)"
    using Suc.prems(4) by simp
  have first: "p + 2 * (width - 0) \<le> int (length img)"
    using last hs by arith
  from set_color_cells_succeeds [OF Suc.prems(1) Suc.prems(3) first, of a]
  obtain img1 where r1: "set_color_cells img p 0 width a = Some img1" "length img1 = length img"
    by auto
  have pre: "n = 0 \<or> p + stride + (int n - 1) * stride + 2 * width \<le> int (length img1)"
    using last r1(2) by (simp add: row_step)
  have "0 \<le> p + stride" using Suc.prems by arith
  from Suc.IH [OF this Suc.prems(2,3) pre] r1
  show ?case by simp
qed

lemma set_color_succeeds:
  assumes s: "active_session s" and img: "screen_image s = Some img"
    and nov: "sums_in_int (total_rows s) (total_columns s) row column width height"
  shows "\<exists>img'. set_color s row column width height attribute
        = Some (s\<lparr>screen_image := Some img'\<rparr>)
    \<and> length img' = length img"
proof -
  let ?cols = "total_columns s" and ?rows = "total_rows s"
  obtain r c w h where adj: "adjust_dimensions ?rows ?cols row column width height = (r, c, w, h)"
    by (cases "adjust_dimensions ?rows ?cols row column width height") auto
  let ?p = "screen_offset ?cols r c"
  from s have g: "1 \<le> ?rows" "1 \<le> ?cols" and al: "allocated s"
    by (simp_all add: active_session_def)
  from al img have len: "int (length img) = ?rows * 2 * ?cols"
    by (auto elim: allocatedE)
  note b = adjust_dimensions_bounds [OF g adj nov]
  have il: "int (nat h) = h" using b by simp
  have p0: "0 \<le> ?p"
    using region_in_image(1) [of r c w h ?rows ?cols 0] b by simp
  have S: "0 \<le> 2 * ?cols" "0 \<le> w" using g b by simp_all
  have last: "nat h = 0 \<or> ?p + (int (nat h) - 1) * (2 * ?cols) + 2 * w \<le> int (length img)"
    using region_in_image(2) [of r c w h ?rows ?cols "h - 1"] b len il by simp
  from set_color_rows_succeeds [OF p0 S last]
  obtain img' where w: "set_color_rows img ?p (2 * ?cols) w
      (to_char (convert_attribute (color_works s) attribute)) (nat h) = Some img'"
    "length img' = length img"
    by blast
  have "set_color s row column width height attribute = Some (s\<lparr>screen_image := Some img'\<rparr>)"
    using adj img w by (simp add: set_color_def)
  with w(2) show ?thesis by blast
qed

lemma mutate_succeeds:
  assumes s: "active_session s" and img: "screen_image s = Some img"
    and nov: "clamp_fits (total_rows s) (total_columns s) m"
    and fits: "buffer_fits (total_rows s) (total_columns s) m"
  shows "\<exists>img'. mutate s m = Some (s\<lparr>screen_image := Some img'\<rparr>) \<and> length img' = length img"
proof (cases m)
  case (Write row column width height buffer)
  obtain r c w h where adj: "adjust_dimensions (total_rows s) (total_columns s) row column
      width height = (r, c, w, h)"
    by (cases "adjust_dimensions (total_rows s) (total_columns s) row column width height") auto
  with fits Write have b: "2 * w * h \<le> int (length buffer)" by simp
  from nov Write have "sums_in_int (total_rows s) (total_columns s) row column width height"
    by simp
  from write_scr_succeeds [OF s img adj this b] Write show ?thesis by simp
next
  case (Write_text row column width height buffer)
  obtain r c w h where adj: "adjust_dimensions (total_rows s) (total_columns s) row column
      width height = (r, c, w, h)"
    by (cases "adjust_dimensions (total_rows s) (total_columns s) row column width height") auto
  with fits Write_text have b: "w * h \<le> int (length buffer)" by simp
  from nov Write_text
  have "sums_in_int (total_rows s) (total_columns s) row column width height"
    by simp
  from write_text_succeeds [OF s img adj this b] Write_text show ?thesis by simp
next
  case (Print row column count attribute formatted)
  obtain r c w h where adj: "adjust_dimensions (total_rows s) (total_columns s) row column
      (size_t_to_int count) 1 = (r, c, w, h)"
    by (cases "adjust_dimensions (total_rows s) (total_columns s) row column
      (size_t_to_int count) 1") auto
  from nov Print
  have "sums_in_int (total_rows s) (total_columns s) row column (size_t_to_int count) 1"
    by simp
  from print_cells_on_screen [OF s img adj this refl, of attribute formatted] Print
  show ?thesis by auto
next
  case (Print_text row column count formatted)
  obtain r c w h where adj: "adjust_dimensions (total_rows s) (total_columns s) row column
      (size_t_to_int count) 1 = (r, c, w, h)"
    by (cases "adjust_dimensions (total_rows s) (total_columns s) row column
      (size_t_to_int count) 1") auto
  from nov Print_text
  have "sums_in_int (total_rows s) (total_columns s) row column (size_t_to_int count) 1"
    by simp
  from print_text_cells_on_screen [OF s img adj this refl, of formatted] Print_text
  show ?thesis by auto
next
  case (Clear row column width height attribute)
  obtain r c w h where adj: "adjust_dimensions (total_rows s) (total_columns s) row column
      width height = (r, c, w, h)"
    by (cases "adjust_dimensions (total_rows s) (total_columns s) row column width height") auto
  from nov Clear have "sums_in_int (total_rows s) (total_columns s) row column width height"
    by simp
  from clear_on_screen [OF s img adj this, of attribute] Clear show ?thesis by auto
next
  case (Set_color row column width height attribute)
  from nov Set_color
  have "sums_in_int (total_rows s) (total_columns s) row column width height"
    by simp
  from set_color_succeeds [OF s img this, of attribute] Set_color
  show ?thesis by simp
next
  case (Scroll direction row column width height k attribute)
  obtain r c w h where adj: "adjust_dimensions (total_rows s) (total_columns s) row column
      width height = (r, c, w, h)"
    by (cases "adjust_dimensions (total_rows s) (total_columns s) row column width height") auto
  from nov Scroll
  have f: "sums_in_int (total_rows s) (total_columns s) row column width height"
    by simp
  consider "k \<le> 0" | "h \<le> k" | "0 < k" "k < h" by linarith
  then show ?thesis
  proof cases
    case 1
    have "s\<lparr>screen_image := Some img\<rparr> = s" using img by simp
    with 1 Scroll show ?thesis
      by (auto simp add: scroll_no_rows intro!: exI [of _ img])
  next
    case 2
    from clear_on_screen [OF s img adj f, of attribute] scroll_all_rows [OF s adj 2] Scroll
    show ?thesis by auto
  next
    case 3
    from scroll_some_rows [where attribute = attribute and direction = direction,
        OF s img adj f 3 refl] Scroll
    show ?thesis by auto
  qed
qed

lemma mutate_all_succeeds:
  assumes "active_session s"
    and "list_all (clamp_fits (total_rows s) (total_columns s)) ms"
    and "list_all (buffer_fits (total_rows s) (total_columns s)) ms"
  shows "\<exists>s'. mutate_all s ms = Some s' \<and> active_session s'"
  using assms
proof (induction ms arbitrary: s)
  case Nil
  then show ?case by simp
next
  case (Cons m ms)
  from Cons.prems(1) obtain img where img: "screen_image s = Some img"
    by (auto simp add: active_session_def elim: allocatedE)
  from Cons.prems(2) have nov: "clamp_fits (total_rows s) (total_columns s) m"
    "list_all (clamp_fits (total_rows s) (total_columns s)) ms"
    by simp_all
  from Cons.prems(3) have fits: "buffer_fits (total_rows s) (total_columns s) m"
    "list_all (buffer_fits (total_rows s) (total_columns s)) ms"
    by simp_all
  from mutate_succeeds [OF Cons.prems(1) img nov(1) fits(1)]
  obtain img' where m: "mutate s m = Some (s\<lparr>screen_image := Some img'\<rparr>)"
    "length img' = length img"
    by blast
  let ?s1 = "s\<lparr>screen_image := Some img'\<rparr>"
  have a: "active_session ?s1"
    using active_session_update [OF Cons.prems(1) img m(2)] .
  have "list_all (clamp_fits (total_rows ?s1) (total_columns ?s1)) ms"
    "list_all (buffer_fits (total_rows ?s1) (total_columns ?s1)) ms"
    using nov(2) fits(2) by simp_all
  from Cons.IH [OF a this] m(1) show ?case by simp
qed

subsection \<open>A mutation that returns leaves the size of the image\<close>

lemma memcpy_length: "memcpy dst d src s n = Some dst' \<Longrightarrow> length dst' = length dst"
  by (auto simp add: memcpy_def split: if_splits)

lemma memcpy_within_length: "memcpy_within mem d s n = Some mem' \<Longrightarrow> length mem' = length mem"
  by (auto simp add: memcpy_within_def memcpy_length split: if_splits)

lemma write_rows_length:
  "write_rows img p stride len buffer bp n = Some img' \<Longrightarrow> length img' = length img"
proof (induction n arbitrary: img p bp)
  case 0
  then show ?case by simp
next
  case (Suc n)
  then show ?case
    by (auto simp add: bind_eq_Some_conv dest!: memcpy_length)
qed

lemma write_text_cells_length:
  "write_text_cells img d buffer bp i width = Some (img', bp') \<Longrightarrow> length img' = length img"
proof (induction img d buffer bp i width rule: write_text_cells.induct)
  case (1 img d buffer bp i width)
  show ?case
  proof (cases "i < width")
    case True
    with "1.prems" obtain ch img1 where "peek buffer bp = Some ch" "poke img d ch = Some img1"
      and r: "write_text_cells img1 (d + 2) buffer (bp + 1) (i + 1) width = Some (img', bp')"
      by (subst (asm) write_text_cells.simps) (auto simp add: bind_eq_Some_conv)
    from "1.IH" [OF True this(1,2) r] poke_length [OF this(2)] show ?thesis by simp
  next
    case False
    with "1.prems" show ?thesis by (subst (asm) write_text_cells.simps) simp
  qed
qed

lemma write_text_rows_length:
  "write_text_rows img p stride buffer bp width n = Some img' \<Longrightarrow> length img' = length img"
proof (induction n arbitrary: img p bp)
  case 0
  then show ?case by simp
next
  case (Suc n)
  then show ?case
    by (auto simp add: bind_eq_Some_conv dest!: write_text_cells_length)
qed

lemma print_cells_length:
  "print_cells img p str w a = Some img' \<Longrightarrow> length img' = length img"
proof (induction str arbitrary: img p w)
  case Nil
  then show ?case by simp
next
  case (Cons ch str)
  then show ?case
    by (auto simp add: bind_eq_Some_conv split: if_splits dest!: poke_length)
qed

lemma print_text_cells_length:
  "print_text_cells img p str w = Some img' \<Longrightarrow> length img' = length img"
proof (induction str arbitrary: img p w)
  case Nil
  then show ?case by simp
next
  case (Cons ch str)
  then show ?case
    by (auto simp add: bind_eq_Some_conv split: if_splits dest!: poke_length)
qed

lemma clear_cells_length:
  "clear_cells img d i width a = Some img' \<Longrightarrow> length img' = length img"
proof (induction img d i width a rule: clear_cells.induct)
  case (1 img d i width a)
  show ?case
  proof (cases "i < width")
    case True
    with "1.prems" obtain img1 img2 where p: "poke img d 32 = Some img1"
      "poke img1 (d + 1) a = Some img2"
      and r: "clear_cells img2 (d + 2) (i + 1) width a = Some img'"
      by (subst (asm) clear_cells.simps) (auto simp add: bind_eq_Some_conv)
    from "1.IH" [OF True p r] poke_length [OF p(1)] poke_length [OF p(2)] show ?thesis by simp
  next
    case False
    with "1.prems" show ?thesis by (subst (asm) clear_cells.simps) simp
  qed
qed

lemma clear_rows_length:
  "clear_rows img p stride width a n = Some img' \<Longrightarrow> length img' = length img"
proof (induction n arbitrary: img p)
  case 0
  then show ?case by simp
next
  case (Suc n)
  then show ?case
    by (auto simp add: bind_eq_Some_conv dest!: clear_cells_length)
qed

lemma set_color_cells_length:
  "set_color_cells img d i width a = Some img' \<Longrightarrow> length img' = length img"
proof (induction img d i width a rule: set_color_cells.induct)
  case (1 img d i width a)
  show ?case
  proof (cases "i < width")
    case True
    with "1.prems" obtain img1 where p: "poke img (d + 1) a = Some img1"
      and r: "set_color_cells img1 (d + 2) (i + 1) width a = Some img'"
      by (subst (asm) set_color_cells.simps) (auto simp add: bind_eq_Some_conv)
    from "1.IH" [OF True p r] poke_length [OF p] show ?thesis by simp
  next
    case False
    with "1.prems" show ?thesis by (subst (asm) set_color_cells.simps) simp
  qed
qed

lemma set_color_rows_length:
  "set_color_rows img p stride width a n = Some img' \<Longrightarrow> length img' = length img"
proof (induction n arbitrary: img p)
  case 0
  then show ?case by simp
next
  case (Suc n)
  then show ?case
    by (auto simp add: bind_eq_Some_conv dest!: set_color_cells_length)
qed

lemma scroll_rows_length:
  "scroll_rows img sp src step len i bound = Some img' \<Longrightarrow> length img' = length img"
proof (induction img sp src step len i bound rule: scroll_rows.induct)
  case (1 img sp src step len i bound)
  show ?case
  proof (cases "i < bound")
    case True
    with "1.prems" obtain img1 where p: "memcpy_within img sp src len = Some img1"
      and r: "scroll_rows img1 (sp + step) (src + step) step len (i + 1) bound = Some img'"
      by (subst (asm) scroll_rows.simps) (auto simp add: bind_eq_Some_conv)
    from "1.IH" [OF True p r] memcpy_within_length [OF p] show ?thesis by simp
  next
    case False
    with "1.prems" show ?thesis by (subst (asm) scroll_rows.simps) simp
  qed
qed

lemma active_session_image:
  assumes "active_session s" and "screen_image s = Some img" and "length img' = length img"
  shows "active_session (s\<lparr>screen_image := Some img'\<rparr>)"
  using assms by (rule active_session_update)

lemma write_scr_active:
  assumes "active_session s" and "write_scr s row column width height buffer = Some s'"
  shows "active_session s'"
  using assms(2) unfolding write_scr_def
  by (auto simp add: bind_eq_Some_conv split: prod.splits
      intro!: active_session_image [OF assms(1)] dest!: write_rows_length)

lemma write_text_active:
  assumes "active_session s" and "write_text s row column width height buffer = Some s'"
  shows "active_session s'"
  using assms(2) unfolding write_text_def
  by (auto simp add: bind_eq_Some_conv split: prod.splits
      intro!: active_session_image [OF assms(1)] dest!: write_text_rows_length)

lemma print_active:
  assumes "active_session s" and "print s row column count attribute formatted = Some s'"
  shows "active_session s'"
  using assms(2) unfolding print_def
  by (auto simp add: bind_eq_Some_conv split: prod.splits
      intro!: active_session_image [OF assms(1)] dest!: print_cells_length)

lemma print_text_active:
  assumes "active_session s" and "print_text s row column count formatted = Some s'"
  shows "active_session s'"
  using assms(2) unfolding print_text_def
  by (auto simp add: bind_eq_Some_conv split: prod.splits
      intro!: active_session_image [OF assms(1)] dest!: print_text_cells_length)

lemma clear_active:
  assumes "active_session s" and "clear s row column width height attribute = Some s'"
  shows "active_session s'"
  using assms(2) unfolding clear_def
  by (auto simp add: bind_eq_Some_conv split: prod.splits
      intro!: active_session_image [OF assms(1)] dest!: clear_rows_length)

lemma set_color_active:
  assumes "active_session s" and "set_color s row column width height attribute = Some s'"
  shows "active_session s'"
  using assms(2) unfolding set_color_def
  by (auto simp add: bind_eq_Some_conv split: prod.splits
      intro!: active_session_image [OF assms(1)] dest!: set_color_rows_length)

lemma scroll_active:
  assumes "active_session s"
    and "scroll s direction row column width height k attribute = Some s'"
  shows "active_session s'"
proof -
  obtain r c w h where adj: "adjust_dimensions (total_rows s) (total_columns s) row column
      width height = (r, c, w, h)"
    by (cases "adjust_dimensions (total_rows s) (total_columns s) row column width height") auto
  let ?a = "convert_attribute (color_works s) attribute"
  consider "k \<le> 0" | "0 < k" "h \<le> k" | "0 < k" "k < h" by linarith
  then show ?thesis
  proof cases
    case 1
    with assms show ?thesis by (simp add: scroll_def)
  next
    case 2
    with assms(2) adj have "clear s r c w h ?a = Some s'"
      by (simp add: scroll_def Let_def)
    with assms(1) show ?thesis by (rule clear_active)
  next
    case 3
    with assms(2) adj have "\<exists>img img1 n sp src step bound r1. screen_image s = Some img
        \<and> scroll_rows img sp src step n 0 bound = Some img1
        \<and> clear (s\<lparr>screen_image := Some img1\<rparr>) r1 c w k ?a = Some s'"
      by (cases "direction = UP")
        (simp_all add: scroll_def Let_def bind_eq_Some_conv, blast+)
    then obtain img img1 n sp src step bound where img: "screen_image s = Some img"
      and r: "scroll_rows img sp src step n 0 bound = Some img1"
      and c: "\<exists>r1. clear (s\<lparr>screen_image := Some img1\<rparr>) r1 c w k ?a = Some s'"
      by blast
    from active_session_image [OF assms(1) img scroll_rows_length [OF r]] c
    show ?thesis by (auto intro: clear_active)
  qed
qed

lemma mutate_active:
  assumes "active_session s" and "mutate s m = Some s'"
  shows "active_session s'"
  using assms
  by (cases m)
    (auto intro: write_scr_active write_text_active print_active print_text_active
      clear_active set_color_active scroll_active)

lemma mutate_all_active:
  "active_session s \<Longrightarrow> mutate_all s ms = Some s' \<Longrightarrow> active_session s'"
proof (induction ms arbitrary: s)
  case Nil
  then show ?case by simp
next
  case (Cons m ms)
  then show ?case
    by (auto simp add: bind_eq_Some_conv dest: mutate_active)
qed


section \<open>Refresh after mutations\<close>

text \<open>
  C1. In an active session, whatever the virtual and the physical image hold, after any
  sequence of the mutating operations (write, write_text, print, print_text, clear,
  set_color, scroll) that returns, a refresh returns too and leaves the physical image
  equal to the screen image, byte for byte, which the refresh itself does not change.
  And a sequence returns, whatever its other arguments, when in each call no sum of the
  clamp overflows and the caller's buffer is as large as the function assumes for the
  clamped region.
\<close>

theorem refresh_after_mutations:
  assumes "active_session s"
  shows "(\<forall>s'. mutate_all s ms = Some s' \<longrightarrow>
        (\<exists>s'' img. refresh s' = Some s'' \<and> screen_image s' = Some img
          \<and> screen_image s'' = Some img \<and> physical_image s'' = Some img))
    \<and> (list_all (clamp_fits (total_rows s) (total_columns s)) ms
        \<and> list_all (buffer_fits (total_rows s) (total_columns s)) ms \<longrightarrow>
        (\<exists>s' s'' img. mutate_all s ms = Some s' \<and> refresh s' = Some s''
          \<and> screen_image s' = Some img \<and> screen_image s'' = Some img
          \<and> physical_image s'' = Some img))"
proof -
  have sync: "\<exists>s'' img. refresh s' = Some s'' \<and> screen_image s' = Some img
      \<and> screen_image s'' = Some img \<and> physical_image s'' = Some img"
    if m: "mutate_all s ms = Some s'" for s'
  proof -
    from mutate_all_active [OF assms m] have al: "allocated s'"
      by (simp add: active_session_def)
    then obtain img where img: "screen_image s' = Some img" by (auto elim: allocatedE)
    from refresh_synchronizes [OF al]
    obtain s'' where "refresh s' = Some s''" "physical_image s'' = screen_image s'"
      "screen_image s'' = screen_image s'" by blast
    with img show ?thesis by simp
  qed
  have "\<exists>s' s'' img. mutate_all s ms = Some s' \<and> refresh s' = Some s''
          \<and> screen_image s' = Some img \<and> screen_image s'' = Some img
          \<and> physical_image s'' = Some img"
    if "list_all (clamp_fits (total_rows s) (total_columns s)) ms"
      and "list_all (buffer_fits (total_rows s) (total_columns s)) ms"
  proof -
    from mutate_all_succeeds [OF assms that]
    obtain s' where m: "mutate_all s ms = Some s'" by blast
    from sync [OF m] m show ?thesis by blast
  qed
  with sync show ?thesis by blast
qed

theorem refresh_after_mutations_witness:
  "(\<exists>s' s'' img.
     mutate_all sample_scr
       [Print 1 1 5 0x17 [72, 105], Scroll DOWN 1 1 2 3 1 0x20, Write 3 2 1 1 [88, 9],
        Set_color 1 1 2 1 0x70, Write_text 2 1 2 1 [79, 75], Clear 0 0 1 1 7,
        Print_text 3 1 1 [33]] = Some s'
     \<and> refresh s' = Some s''
     \<and> screen_image s' = Some img \<and> screen_image s'' = Some img \<and> physical_image s'' = Some img)
   \<and> (\<exists>s''. refresh (small_scr\<lparr>screen_image :=
          Some [32, 7, 65, 0x17, 66, 0x17, 67, 0x17, 32, 7, 32, 7]\<rparr>) = Some s''
        \<and> physical_image s'' = Some [32, 7, 65, 0x17, 66, 0x17, 67, 0x17, 32, 7, 32, 7])"
proof -
  let ?ms = "[Print 1 1 5 0x17 [72, 105], Scroll DOWN 1 1 2 3 1 0x20, Write 3 2 1 1 [88, 9],
        Set_color 1 1 2 1 0x70, Write_text 2 1 2 1 [79, 75], Clear 0 0 1 1 7,
        Print_text 3 1 1 [33]]"
  have a: "active_session sample_scr"
    by (simp add: active_session_def allocated_def sample_scr_def)
  have f: "list_all (clamp_fits (total_rows sample_scr) (total_columns sample_scr)) ?ms
      \<and> list_all (buffer_fits (total_rows sample_scr) (total_columns sample_scr)) ?ms"
    by (simp add: sample_scr_def adjust_dimensions_def int_add_def int_sub_def int_wrap_def
        sums_in_int_def INT_MAX_def size_t_to_int_def)
  from refresh_after_mutations [OF a, of ?ms, THEN conjunct2, rule_format, OF f]
  have one: "\<exists>s' s'' img. mutate_all sample_scr ?ms = Some s' \<and> refresh s' = Some s''
     \<and> screen_image s' = Some img \<and> screen_image s'' = Some img \<and> physical_image s'' = Some img" .
  let ?s1 = "small_scr\<lparr>screen_image :=
      Some [32, 7, 65, 0x17, 66, 0x17, 67, 0x17, 32, 7, 32, 7]\<rparr>"
  have b: "active_session small_scr"
    by (simp add: active_session_def allocated_def small_scr_def)
  have m: "mutate_all small_scr [Print 1 2 2147483647 0x17 [65, 66, 67]] = Some ?s1"
    by (simp add: print_count_overflow_leaves_row)
  from refresh_after_mutations [OF b, of "[Print 1 2 2147483647 0x17 [65, 66, 67]]",
      THEN conjunct1, rule_format, OF m]
  have two: "\<exists>s''. refresh ?s1 = Some s''
      \<and> physical_image s'' = Some [32, 7, 65, 0x17, 66, 0x17, 67, 0x17, 32, 7, 32, 7]"
    by auto
  from one two show ?thesis by (rule conjI)
qed


section \<open>Scrolling, as a whole\<close>

text \<open>
  C2. scroll on the clamped region \<open>(r, c, w, h)\<close>, where no sum of the clamp overflows:
  with a number of rows \<open>k \<le> 0\<close> the screen is unchanged; with \<open>k \<ge> h\<close> it is exactly clear
  on the same region, every cell of the region becoming a space with the converted
  attribute; with \<open>0 < k < h\<close> each cell of the region takes the cell \<open>k\<close> rows below it
  (UP) or above it (DOWN), the \<open>k\<close> rows vacated at the bottom (UP) or top (DOWN) become
  spaces with the converted attribute, and every cell outside the region is unchanged.
\<close>

theorem scroll_semantics:
  assumes "active_session s" and "screen_image s = Some img"
    and "sums_in_int (total_rows s) (total_columns s) row column width height"
    and "adjust_dimensions (total_rows s) (total_columns s) row column width height
        = (r, c, w, h)"
    and "blank = to_char (convert_attribute (color_works s) attribute)"
  shows "(k \<le> 0 \<longrightarrow> scroll s direction row column width height k attribute = Some s)
    \<and> (h \<le> k \<longrightarrow>
        scroll s direction row column width height k attribute
          = clear s row column width height attribute
      \<and> (\<exists>img'. clear s row column width height attribute
            = Some (s\<lparr>screen_image := Some img'\<rparr>)
          \<and> (\<forall>r' c'. 1 \<le> r' \<and> r' \<le> total_rows s \<and> 1 \<le> c' \<and> c' \<le> total_columns s \<longrightarrow>
                cell_at (total_columns s) img' r' c' =
                  (if r \<le> r' \<and> r' < r + h \<and> c \<le> c' \<and> c' < c + w then (32, blank)
                   else cell_at (total_columns s) img r' c'))))
    \<and> (0 < k \<and> k < h \<longrightarrow>
        (\<exists>img'. scroll s direction row column width height k attribute
            = Some (s\<lparr>screen_image := Some img'\<rparr>)
          \<and> length img' = length img
          \<and> (\<forall>r' c'. 1 \<le> r' \<and> r' \<le> total_rows s \<and> 1 \<le> c' \<and> c' \<le> total_columns s \<longrightarrow>
                cell_at (total_columns s) img' r' c' =
                  (if r \<le> r' \<and> r' < r + h \<and> c \<le> c' \<and> c' < c + w then
                     (if direction = UP then
                        (if r' < r + h - k then cell_at (total_columns s) img (r' + k) c'
                         else (32, blank))
                      else
                        (if r + k \<le> r' then cell_at (total_columns s) img (r' - k) c'
                         else (32, blank)))
                   else cell_at (total_columns s) img r' c'))))"
proof (intro conjI impI)
  assume "k \<le> 0"
  then show "scroll s direction row column width height k attribute = Some s"
    by (rule scroll_no_rows)
next
  assume "h \<le> k"
  then show "scroll s direction row column width height k attribute
      = clear s row column width height attribute"
    by (rule scroll_all_rows [OF assms(1,4)])
next
  assume "h \<le> k"
  from clear_on_screen [OF assms(1,2,4,3), of attribute]
  obtain img' where c: "clear s row column width height attribute
        = Some (s\<lparr>screen_image := Some img'\<rparr>)"
    and cells: "\<And>r' c'. 1 \<le> r' \<and> r' \<le> total_rows s \<and> 1 \<le> c' \<and> c' \<le> total_columns s \<Longrightarrow>
          (if r \<le> r' \<and> r' < r + h \<and> c \<le> c' \<and> c' < c + w
           then char_at (total_columns s) img' r' c' = 32
              \<and> attr_at (total_columns s) img' r' c' = blank
           else char_at (total_columns s) img' r' c' = char_at (total_columns s) img r' c'
              \<and> attr_at (total_columns s) img' r' c' = attr_at (total_columns s) img r' c')"
    unfolding assms(5) by blast
  have "cell_at (total_columns s) img' r' c' =
      (if r \<le> r' \<and> r' < r + h \<and> c \<le> c' \<and> c' < c + w then (32, blank)
       else cell_at (total_columns s) img r' c')"
    if "1 \<le> r' \<and> r' \<le> total_rows s \<and> 1 \<le> c' \<and> c' \<le> total_columns s" for r' c'
    using cells [OF that] by (simp add: cell_at_def)
  with c show "\<exists>img'. clear s row column width height attribute
        = Some (s\<lparr>screen_image := Some img'\<rparr>)
      \<and> (\<forall>r' c'. 1 \<le> r' \<and> r' \<le> total_rows s \<and> 1 \<le> c' \<and> c' \<le> total_columns s \<longrightarrow>
            cell_at (total_columns s) img' r' c' =
              (if r \<le> r' \<and> r' < r + h \<and> c \<le> c' \<and> c' < c + w then (32, blank)
               else cell_at (total_columns s) img r' c'))"
    by blast
next
  assume "0 < k \<and> k < h"
  then have k: "0 < k" "k < h" by simp_all
  show "\<exists>img'. scroll s direction row column width height k attribute
            = Some (s\<lparr>screen_image := Some img'\<rparr>)
          \<and> length img' = length img
          \<and> (\<forall>r' c'. 1 \<le> r' \<and> r' \<le> total_rows s \<and> 1 \<le> c' \<and> c' \<le> total_columns s \<longrightarrow>
                cell_at (total_columns s) img' r' c' =
                  (if r \<le> r' \<and> r' < r + h \<and> c \<le> c' \<and> c' < c + w then
                     (if direction = UP then
                        (if r' < r + h - k then cell_at (total_columns s) img (r' + k) c'
                         else (32, blank))
                      else
                        (if r + k \<le> r' then cell_at (total_columns s) img (r' - k) c'
                         else (32, blank)))
                   else cell_at (total_columns s) img r' c'))"
    by (rule scroll_some_rows [OF assms(1,2,4,3) k assms(5)])
qed

theorem scroll_semantics_witness:
  "scroll sample_scr DOWN 1 1 2 3 0 0x20 = Some sample_scr
   \<and> scroll sample_scr UP 1 1 2 3 5 0x20 = clear sample_scr 1 1 2 3 0x20
   \<and> (\<exists>img'. scroll sample_scr UP 1 1 2 3 1 0x20 = Some (sample_scr\<lparr>screen_image := Some img'\<rparr>)
        \<and> cell_at 2 img' 1 1 = (67, 3) \<and> cell_at 2 img' 2 2 = (70, 6)
        \<and> cell_at 2 img' 3 1 = (32, 0x20))"
proof -
  let ?img = "[65, 1, 66, 2, 67, 3, 68, 4, 69, 5, 70, 6] :: byte list"
  have fields: "total_rows sample_scr = 3" "total_columns sample_scr = 2"
    by (simp_all add: sample_scr_def)
  have a: "active_session sample_scr"
    by (simp add: active_session_def allocated_def sample_scr_def)
  have i: "screen_image sample_scr = Some ?img"
    by (simp add: sample_scr_def)
  have f: "sums_in_int (total_rows sample_scr) (total_columns sample_scr) 1 1 2 3"
    by (simp add: sample_scr_def sums_in_int_def INT_MAX_def)
  have d: "adjust_dimensions (total_rows sample_scr) (total_columns sample_scr) 1 1 2 3
      = (1, 1, 2, 3)"
    by (simp add: sample_scr_def adjust_dimensions_def int_add_def int_sub_def int_wrap_def)
  have b: "(0x20::byte) = to_char (convert_attribute (color_works sample_scr) 0x20)"
    by (simp add: sample_scr_def convert_attribute_def to_char_def)
  note t = scroll_semantics [OF a i f d b, unfolded fields]
  have n: "scroll sample_scr DOWN 1 1 2 3 0 0x20 = Some sample_scr"
    using t [of 0 DOWN] by simp
  have c: "scroll sample_scr UP 1 1 2 3 5 0x20 = clear sample_scr 1 1 2 3 0x20"
    using t [of 5 UP] by simp
  from t [of 1 UP]
  obtain img' where r: "scroll sample_scr UP 1 1 2 3 1 0x20
      = Some (sample_scr\<lparr>screen_image := Some img'\<rparr>)"
    and cells: "\<forall>r' c'. 1 \<le> r' \<and> r' \<le> 3 \<and> 1 \<le> c' \<and> c' \<le> 2 \<longrightarrow>
        cell_at 2 img' r' c' =
          (if 1 \<le> r' \<and> r' < 1 + 3 \<and> 1 \<le> c' \<and> c' < 1 + 2 then
             (if UP = UP then
                (if r' < 1 + 3 - 1 then cell_at 2 ?img (r' + 1) c' else (32, 0x20))
              else
                (if 1 + 1 \<le> r' then cell_at 2 ?img (r' - 1) c' else (32, 0x20)))
           else cell_at 2 ?img r' c')"
    by auto
  from cells [rule_format, of 1 1] cells [rule_format, of 2 2] cells [rule_format, of 3 1]
  have "cell_at 2 img' 1 1 = (67, 3) \<and> cell_at 2 img' 2 2 = (70, 6)
        \<and> cell_at 2 img' 3 1 = (32, 0x20)"
    by (simp add: cell_at_def char_at_def attr_at_def byte_at_def screen_offset_def)
  with n c r show ?thesis by blast
qed


section \<open>Write, then read\<close>

text \<open>
  C3. In an active session, a region that lies on the screen is left as it is by the
  clamp, and for a buffer of \<open>2 * width * height\<close> bytes, write followed by read of the
  same region returns exactly the bytes written, characters and attributes alike.
\<close>

theorem write_then_read_returns_buffer:
  assumes "active_session s"
    and "1 \<le> row" and "1 \<le> column" and "1 \<le> width" and "1 \<le> height"
    and "row + height - 1 \<le> total_rows s" and "column + width - 1 \<le> total_columns s"
    and "int (length B) = 2 * width * height" and "length B2 = length B"
  shows "adjust_dimensions (total_rows s) (total_columns s) row column width height
      = (row, column, width, height)
    \<and> (\<exists>s'. write_scr s row column width height B = Some s'
      \<and> read s' row column width height B2 = Some B)"
proof -
  from assms(1) obtain img where img: "screen_image s = Some img"
    by (auto simp add: active_session_def elim: allocatedE)
  note g = active_session_geometry(2,4) [OF assms(1)]
  note on = adjust_dimensions_on_screen [OF assms(2-7) g]
  from write_read_rows [OF assms(1) img on assms(8,9)] on(1) show ?thesis by blast
qed

theorem write_then_read_returns_buffer_witness:
  "\<exists>s'. write_scr small_scr 1 2 2 2 [1, 2, 3, 4, 5, 6, 7, 8] = Some s'
     \<and> read s' 1 2 2 2 [0, 0, 0, 0, 0, 0, 0, 0] = Some [1, 2, 3, 4, 5, 6, 7, 8]"
proof -
  have a: "active_session small_scr"
    by (simp add: active_session_def allocated_def small_scr_def)
  have d: "(1::int) \<le> 1" "(1::int) \<le> 2" "(1::int) \<le> 2" "(1::int) \<le> 2"
    "1 + 2 - 1 \<le> total_rows small_scr" "2 + 2 - 1 \<le> total_columns small_scr"
    by (simp_all add: small_scr_def)
  have l: "int (length [1, 2, 3, 4, 5, 6, 7, 8 :: byte]) = 2 * 2 * 2"
    "length [0, 0, 0, 0, 0, 0, 0, 0 :: byte] = length [1, 2, 3, 4, 5, 6, 7, 8 :: byte]"
    by simp_all
  from write_then_read_returns_buffer [OF a d l, THEN conjunct2] show ?thesis .
qed

end
